theory Spec2Isabelle
  imports Main "HOL-Library.Word"
begin

section \<open>Data model\<close>

text \<open>
  A JavaScript string is a sequence of UTF-16 code units. Timestamps (\<open>Date\<close>) are
  milliseconds since the epoch. Identifiers (\<open>PrimaryGeneratedColumn\<close>) are naturals.
\<close>

type_synonym jsstring = "16 word list"
type_synonym date = nat

text \<open>An ASCII literal as a JavaScript string.\<close>

definition js :: "string \<Rightarrow> jsstring" where
  "js cs = map (\<lambda>c. word_of_nat (of_char c)) cs"

text \<open>
  \<open>String.prototype.trim\<close>: removes the ECMAScript WhiteSpace and LineTerminator code
  points (all of them in the Basic Multilingual Plane) from both ends.
\<close>

definition isWhiteSpace :: "16 word \<Rightarrow> bool" where
  "isWhiteSpace c \<longleftrightarrow>
     c = 0x9 \<or> c = 0xA \<or> c = 0xB \<or> c = 0xC \<or> c = 0xD \<or> c = 0x20 \<or> c = 0xA0 \<or>
     c = 0x1680 \<or> (0x2000 \<le> c \<and> c \<le> 0x200A) \<or> c = 0x2028 \<or> c = 0x2029 \<or>
     c = 0x202F \<or> c = 0x205F \<or> c = 0x3000 \<or> c = 0xFEFF"

definition trim :: "jsstring \<Rightarrow> jsstring" where
  "trim s = rev (dropWhile isWhiteSpace (rev (dropWhile isWhiteSpace s)))"

text \<open>One entry of \<open>Message.editHistory\<close>: \<open>{ content, editedAt }\<close>.\<close>

record edit =
  editContent :: jsstring
  editEditedAt :: date

text \<open>
  Entity \<open>Message\<close> (entities/Message.ts). The record is split in two: \<open>sanitized\<close>
  holds every column except the two backup columns, and \<open>message\<close> extends it with
  \<open>originalContent\<close> and \<open>editHistory\<close> (both nullable), so that the rest
  destructuring \<open>const { originalContent, editHistory, ...sanitized } = message\<close>
  is the truncation of a \<open>message\<close> to its \<open>sanitized\<close> part. The primary key
  \<open>id\<close> is named \<open>mId\<close>. The column \<open>updatedAt\<close>, which the ORM maintains and
  no handler reads, and the unloaded relations are left out.
\<close>

record sanitized =
  mId :: nat
  content :: jsstring
  senderId :: nat
  receiverId :: nat
  conversationId :: nat
  isRead :: bool
  isDelivered :: bool
  isDeleted :: bool
  deletedAt :: "date option"
  isEdited :: bool
  editedAt :: "date option"
  createdAt :: date

record message = sanitized +
  originalContent :: "jsstring option"
  editHistory :: "edit list option"

text \<open>Entity \<open>Conversation\<close>; the primary key \<open>id\<close> is named \<open>cId\<close>.\<close>

record conversation =
  cId :: nat
  user1Id :: nat
  user2Id :: nat
  updatedAt :: date

text \<open>
  Entity \<open>User\<close>; \<open>participant\<close> is the projection
  \<open>select: ['id', 'username', 'email', 'avatarUrl', 'status', 'lastSeen']\<close>.
\<close>

record participant =
  uId :: nat
  username :: jsstring
  email :: jsstring
  avatarUrl :: "jsstring option"
  status :: string
  lastSeen :: "date option"

record user = participant +
  password :: jsstring

text \<open>
  The store (three tables and their id sequences) and the handler's \<open>userSockets\<close> map.
  A table is the list of its rows.
\<close>

record state =
  users :: "user list"
  conversations :: "conversation list"
  messages :: "message list"
  userSockets :: "nat \<rightharpoonup> string"
  nextConversationId :: nat
  nextMessageId :: nat

section \<open>Repository operations\<close>

definition findUser :: "state \<Rightarrow> nat \<Rightarrow> user option" where
  "findUser s k = find (\<lambda>u. uId u = k) (users s)"

definition findMessage :: "state \<Rightarrow> nat \<Rightarrow> message option" where
  "findMessage s k = find (\<lambda>m. mId m = k) (messages s)"

definition findConversationById :: "state \<Rightarrow> nat \<Rightarrow> conversation option" where
  "findConversationById s k = find (\<lambda>c. cId c = k) (conversations s)"

text \<open>
  \<open>findOne({ where: [{ user1Id: a, user2Id: b }, { user1Id: b, user2Id: a }] })\<close>:
  the first row stored in either order.
\<close>

definition findConversation :: "state \<Rightarrow> nat \<Rightarrow> nat \<Rightarrow> conversation option" where
  "findConversation s a b =
     find (\<lambda>c. (user1Id c = a \<and> user2Id c = b) \<or> (user1Id c = b \<and> user2Id c = a))
       (conversations s)"

text \<open>\<open>save\<close> of a loaded entity writes the row with its primary key.\<close>

definition saveMessage :: "state \<Rightarrow> message \<Rightarrow> state" where
  "saveMessage s m = s\<lparr>messages := map (\<lambda>x. if mId x = mId m then m else x) (messages s)\<rparr>"

definition saveConversation :: "state \<Rightarrow> conversation \<Rightarrow> state" where
  "saveConversation s c =
     s\<lparr>conversations := map (\<lambda>x. if cId x = cId c then c else x) (conversations s)\<rparr>"

definition saveUser :: "state \<Rightarrow> user \<Rightarrow> state" where
  "saveUser s u = s\<lparr>users := map (\<lambda>x. if uId x = uId u then u else x) (users s)\<rparr>"

text \<open>\<open>save\<close> of a new entity inserts a row with the next id of the sequence.\<close>

definition insertConversation :: "state \<Rightarrow> nat \<Rightarrow> nat \<Rightarrow> date \<Rightarrow> state \<times> conversation" where
  "insertConversation s a b now =
     (let c = \<lparr>cId = nextConversationId s, user1Id = a, user2Id = b, updatedAt = now\<rparr>
      in (s\<lparr>conversations := conversations s @ [c],
            nextConversationId := Suc (nextConversationId s)\<rparr>, c))"

section \<open>Outputs\<close>

text \<open>
  \<open>sanitizeMessage\<close> (socket.handler.ts 434-438, message.controller.ts 10-14):
  drops \<open>originalContent\<close> and \<open>editHistory\<close>, keeps every other field.
\<close>

definition sanitizeMessage :: "message \<Rightarrow> sanitized" where
  "sanitizeMessage message = sanitized.truncate message"

definition sanitizeMessages :: "message list \<Rightarrow> sanitized list" where
  "sanitizeMessages msgs = map sanitizeMessage msgs"

text \<open>Outbound real-time events with their payloads.\<close>

datatype event =
    NewMessage sanitized
  | MessageDelivered nat nat
  | MessageRead nat nat
  | MessageUpdated sanitized
  | MessageDeleted sanitized
  | Typing nat nat
  | UserStatusChange nat string date
  | Error string

text \<open>
  Where an event goes: \<open>socket.emit\<close> reaches the calling connection, whose user is
  \<open>socket.userId\<close>; \<open>io.to('user_' + k).emit\<close> reaches the room of user \<open>k\<close>;
  \<open>io.emit\<close> reaches every connection.
\<close>

datatype channel = Socket nat | Room nat | Broadcast

type_synonym emission = "channel \<times> event"

text \<open>An HTTP response: a status with a message, or status 200 with a body.\<close>

datatype 'a response = Fail nat string | Ok 'a

section \<open>Real-time handlers (socket/socket.handler.ts)\<close>

text \<open>
  Every handler takes the store, the caller \<open>socket.userId\<close>, the event data and the
  reading \<open>now\<close> of the clock (\<open>new Date()\<close> and the timestamps the store generates
  during one run of a handler are one reading), and returns the new store with the
  events emitted, in order. The caller is a registered user: a token is only issued
  to one, and no operation removes a user.
\<close>

text \<open>
  Find or create the conversation of two users (socket.handler.ts 113-127 and
  conversation.controller.ts 126-141, the same code).
\<close>

definition resolveConversation :: "state \<Rightarrow> nat \<Rightarrow> nat \<Rightarrow> date \<Rightarrow> state \<times> conversation" where
  "resolveConversation s a b now =
     (case findConversation s a b of
        Some c \<Rightarrow> (s, c)
      | None \<Rightarrow> insertConversation s a b now)"

text \<open>\<open>messageRepository.create({...})\<close> followed by \<open>save\<close> (lines 137-148).\<close>

definition insertMessage :: "state \<Rightarrow> jsstring \<Rightarrow> nat \<Rightarrow> nat \<Rightarrow> nat \<Rightarrow> date \<Rightarrow> state \<times> message" where
  "insertMessage s c sId rId cid now =
     (let m = \<lparr>mId = nextMessageId s, content = c, senderId = sId, receiverId = rId,
                conversationId = cid, isRead = False, isDelivered = False,
                isDeleted = False, deletedAt = None, isEdited = False, editedAt = None,
                createdAt = now, originalContent = Some c, editHistory = Some []\<rparr>
      in (s\<lparr>messages := messages s @ [m], nextMessageId := Suc (nextMessageId s)\<rparr>, m))"

definition handleSendMessage ::
  "state \<Rightarrow> nat \<Rightarrow> nat \<Rightarrow> jsstring \<Rightarrow> date \<Rightarrow> state \<times> emission list" where
  "handleSendMessage s sId rId c now =
     (if sId = rId then (s, [(Socket sId, Error ''Cannot send message to yourself'')])
      else case findUser s rId of
        None \<Rightarrow> (s, [(Socket sId, Error ''Receiver not found'')])
      | Some receiver \<Rightarrow>
          (case resolveConversation s sId rId now of (s1, conv) \<Rightarrow>
             if user1Id conv \<noteq> sId \<and> user2Id conv \<noteq> sId
             then (s1, [(Socket sId, Error ''Invalid conversation access'')])
             else
               (case insertMessage s1 c sId rId (cId conv) now of (s2, message) \<Rightarrow>
                  let s3 = saveConversation s2 (conv\<lparr>updatedAt := now\<rparr>);
                      e1 = (Socket sId, NewMessage (sanitizeMessage message))
                  in (case userSockets s3 rId of
                        Some receiverSocketId \<Rightarrow>
                          let message' = message\<lparr>isDelivered := True\<rparr>
                          in (saveMessage s3 message',
                              [e1,
                               (Room rId, NewMessage (sanitizeMessage message')),
                               (Socket sId, MessageDelivered (mId message') (cId conv))])
                      | None \<Rightarrow> (s3, [e1])))))"

text \<open>The loop of the conversation form of \<open>markAsRead\<close> (lines 204-215).\<close>

fun markMessagesRead :: "state \<Rightarrow> nat \<Rightarrow> message list \<Rightarrow> state \<times> emission list" where
  "markMessagesRead s cid [] = (s, [])"
| "markMessagesRead s cid (message # rest) =
     (let message' = message\<lparr>isRead := True, isDelivered := True\<rparr>;
          s1 = saveMessage s message'
      in case markMessagesRead s1 cid rest of (s2, es) \<Rightarrow>
           (s2, (Room (senderId message'), MessageRead (mId message') cid) # es))"

text \<open>
  \<open>data.conversationId\<close> is optional, and \<open>if (conversationId)\<close> is a truthiness
  test: an absent id and the id 0 both take the single-message form.
\<close>

definition handleMarkAsRead ::
  "state \<Rightarrow> nat \<Rightarrow> nat \<Rightarrow> nat option \<Rightarrow> state \<times> emission list" where
  "handleMarkAsRead s userId msgId convId =
     (if convId \<noteq> None \<and> convId \<noteq> Some 0 then
        markMessagesRead s (the convId)
          (filter (\<lambda>m. conversationId m = the convId \<and> receiverId m = userId \<and> \<not> isRead m)
             (messages s))
      else case findMessage s msgId of
        None \<Rightarrow> (s, [])
      | Some message \<Rightarrow>
          if receiverId message \<noteq> userId then (s, [])
          else
            let message' = message\<lparr>isRead := True, isDelivered := True\<rparr>
            in (saveMessage s message',
                [(Room (senderId message'),
                  MessageRead (mId message') (conversationId message'))]))"

definition handleTyping :: "state \<Rightarrow> nat \<Rightarrow> nat \<Rightarrow> state \<times> emission list" where
  "handleTyping s userId convId =
     (case findConversationById s convId of
        None \<Rightarrow> (s, [])
      | Some conv \<Rightarrow>
          if user1Id conv \<noteq> userId \<and> user2Id conv \<noteq> userId then (s, [])
          else
            let otherUserId = (if user1Id conv = userId then user2Id conv else user1Id conv)
            in (s, [(Room otherUserId, Typing userId convId)]))"

text \<open>\<open>message.editHistory || []\<close>: a null history reads as the empty one.\<close>

definition historyOf :: "message \<Rightarrow> edit list" where
  "historyOf message = (case editHistory message of None \<Rightarrow> [] | Some h \<Rightarrow> h)"

text \<open>
  The effect of an edit (socket.handler.ts 363-373 and message.controller.ts 122-132,
  the same code).
\<close>

definition editMessage :: "message \<Rightarrow> jsstring \<Rightarrow> date \<Rightarrow> message" where
  "editMessage message c now =
     message\<lparr>editHistory :=
               Some (historyOf message @
                     [\<lparr>editContent = content message, editEditedAt = now\<rparr>]),
             content := trim c,
             isEdited := True,
             editedAt := Some now\<rparr>"

definition handleUpdateMessage ::
  "state \<Rightarrow> nat \<Rightarrow> nat \<Rightarrow> jsstring \<Rightarrow> date \<Rightarrow> state \<times> emission list" where
  "handleUpdateMessage s userId msgId c now =
     (if c = [] \<or> trim c = [] then (s, [(Socket userId, Error ''Content is required'')])
      else case findMessage s msgId of
        None \<Rightarrow> (s, [(Socket userId, Error ''Message not found'')])
      | Some message \<Rightarrow>
          if senderId message \<noteq> userId then (s, [(Socket userId, Error ''Access denied'')])
          else if isDeleted message
          then (s, [(Socket userId, Error ''Cannot update deleted message'')])
          else
            let message' = editMessage message c now;
                messageToSend = sanitizeMessage message'
            in (saveMessage s message',
                [(Socket userId, MessageUpdated messageToSend),
                 (Room (receiverId message'), MessageUpdated messageToSend)]))"

text \<open>
  The effect of a soft delete (socket.handler.ts 413-415 and message.controller.ts
  164-166, the same code).
\<close>

definition placeholder :: jsstring where
  "placeholder = js ''This message was deleted''"

definition softDelete :: "message \<Rightarrow> date \<Rightarrow> message" where
  "softDelete message now =
     message\<lparr>isDeleted := True, deletedAt := Some now, content := placeholder\<rparr>"

definition handleDeleteMessage :: "state \<Rightarrow> nat \<Rightarrow> nat \<Rightarrow> date \<Rightarrow> state \<times> emission list" where
  "handleDeleteMessage s userId msgId now =
     (case findMessage s msgId of
        None \<Rightarrow> (s, [(Socket userId, Error ''Message not found'')])
      | Some message \<Rightarrow>
          if senderId message \<noteq> userId then (s, [(Socket userId, Error ''Access denied'')])
          else
            let message' = softDelete message now;
                messageToSend = sanitizeMessage message'
            in (saveMessage s message',
                [(Socket userId, MessageDeleted messageToSend),
                 (Room (receiverId message'), MessageDeleted messageToSend)]))"

text \<open>
  Connection and disconnection (lines 27-75, 286-330). The status update and the
  delivery sweep are started without \<open>await\<close>, so the status broadcast is emitted
  before their first store access returns; they are modelled as running to their
  end right after, with no other handler in between.
\<close>

definition updateUserStatus :: "state \<Rightarrow> nat \<Rightarrow> string \<Rightarrow> date \<Rightarrow> state" where
  "updateUserStatus s userId st seen =
     (case findUser s userId of
        None \<Rightarrow> s
      | Some u \<Rightarrow> saveUser s (u\<lparr>status := st, lastSeen := Some seen\<rparr>))"

fun markDelivered :: "state \<Rightarrow> message list \<Rightarrow> state \<times> emission list" where
  "markDelivered s [] = (s, [])"
| "markDelivered s (message # rest) =
     (let message' = message\<lparr>isDelivered := True\<rparr>;
          s1 = saveMessage s message'
      in case markDelivered s1 rest of (s2, es) \<Rightarrow>
           (s2, (Room (senderId message'),
                 MessageDelivered (mId message') (conversationId message')) # es))"

definition markPendingMessagesAsDelivered :: "state \<Rightarrow> nat \<Rightarrow> state \<times> emission list" where
  "markPendingMessagesAsDelivered s userId =
     markDelivered s (filter (\<lambda>m. receiverId m = userId \<and> \<not> isDelivered m) (messages s))"

definition handleConnection :: "state \<Rightarrow> nat \<Rightarrow> string \<Rightarrow> date \<Rightarrow> state \<times> emission list" where
  "handleConnection s userId socketId now =
     (if userId \<noteq> 0 then
        let s1 = s\<lparr>userSockets := (userSockets s)(userId \<mapsto> socketId)\<rparr>;
            s2 = updateUserStatus s1 userId ''online'' now
        in case markPendingMessagesAsDelivered s2 userId of (s3, es) \<Rightarrow>
             (s3, (Broadcast, UserStatusChange userId ''online'' now) # es)
      else (s, []))"

definition handleDisconnect :: "state \<Rightarrow> nat \<Rightarrow> date \<Rightarrow> state \<times> emission list" where
  "handleDisconnect s userId now =
     (if userId \<noteq> 0 then
        let s1 = s\<lparr>userSockets := (userSockets s)(userId := None)\<rparr>;
            s2 = updateUserStatus s1 userId ''offline'' now
        in (s2, [(Broadcast, UserStatusChange userId ''offline'' now)])
      else (s, []))"

section \<open>REST handlers (controllers/message.controller.ts)\<close>

text \<open>
  A REST handler takes the store, the authenticated \<open>userId\<close> and the parsed request
  parameters, and returns the new store with the response. A query parameter that
  \<open>parseInt\<close> cannot read is \<open>None\<close>; \<open>parseInt(x) || d\<close> takes the default \<open>d\<close>
  for it and for 0. Path and query numbers are naturals: a negative page or limit
  is outside the model.
\<close>

definition orDefault :: "nat option \<Rightarrow> nat \<Rightarrow> nat" where
  "orDefault x d = (case x of None \<Rightarrow> d | Some n \<Rightarrow> if n = 0 then d else n)"

text \<open>
  \<open>orderBy(createdAt, 'DESC').take(limit).skip((page - 1) * limit)\<close>; rows with the
  same \<open>createdAt\<close> come in an order the store chooses, here latest row first.
\<close>

definition getMessages ::
  "state \<Rightarrow> nat \<Rightarrow> nat \<Rightarrow> nat option \<Rightarrow> nat option \<Rightarrow> sanitized list response" where
  "getMessages s userId convId pageQ limitQ =
     (let page = orDefault pageQ 1; limit = orDefault limitQ 50
      in case findConversationById s convId of
        None \<Rightarrow> Fail 404 ''Conversation not found''
      | Some conv \<Rightarrow>
          if user1Id conv \<noteq> userId \<and> user2Id conv \<noteq> userId then Fail 403 ''Access denied''
          else
            let rows = filter (\<lambda>m. conversationId m = convId \<and>
                                    (senderId m = userId \<or> receiverId m = userId)) (messages s);
                msgs = take limit (drop ((page - 1) * limit) (rev (sort_key createdAt rows)))
            in Ok (sanitizeMessages msgs))"

definition markAsRead :: "state \<Rightarrow> nat \<Rightarrow> nat \<Rightarrow> state \<times> string response" where
  "markAsRead s userId msgId =
     (case findMessage s msgId of
        None \<Rightarrow> (s, Fail 404 ''Message not found'')
      | Some message \<Rightarrow>
          if receiverId message \<noteq> userId then (s, Fail 403 ''Access denied'')
          else (saveMessage s (message\<lparr>isRead := True\<rparr>), Ok ''Message marked as read''))"

text \<open>An absent \<open>content\<close> takes the branch of the empty string (\<open>!content\<close>).\<close>

definition updateMessage ::
  "state \<Rightarrow> nat \<Rightarrow> nat \<Rightarrow> jsstring \<Rightarrow> date \<Rightarrow> state \<times> sanitized response" where
  "updateMessage s userId msgId c now =
     (if c = [] \<or> trim c = [] then (s, Fail 400 ''Content is required'')
      else case findMessage s msgId of
        None \<Rightarrow> (s, Fail 404 ''Message not found'')
      | Some message \<Rightarrow>
          if senderId message \<noteq> userId then (s, Fail 403 ''Access denied'')
          else if isDeleted message then (s, Fail 400 ''Cannot update deleted message'')
          else
            let message' = editMessage message c now
            in (saveMessage s message', Ok (sanitizeMessage message')))"

definition deleteMessage :: "state \<Rightarrow> nat \<Rightarrow> nat \<Rightarrow> date \<Rightarrow> state \<times> string response" where
  "deleteMessage s userId msgId now =
     (case findMessage s msgId of
        None \<Rightarrow> (s, Fail 404 ''Message not found'')
      | Some message \<Rightarrow>
          if senderId message \<noteq> userId then (s, Fail 403 ''Access denied'')
          else (saveMessage s (softDelete message now), Ok ''Message deleted successfully''))"

text \<open>The body of \<open>getMessageHistory\<close> (lines 196-204).\<close>

record history =
  hOriginalContent :: "jsstring option"
  hCurrentContent :: jsstring
  hEditHistory :: "edit list"
  hIsDeleted :: bool
  hDeletedAt :: "date option"
  hIsEdited :: bool
  hEditedAt :: "date option"

definition getMessageHistory :: "state \<Rightarrow> nat \<Rightarrow> nat \<Rightarrow> history response" where
  "getMessageHistory s userId msgId =
     (case findMessage s msgId of
        None \<Rightarrow> Fail 404 ''Message not found''
      | Some message \<Rightarrow>
          if senderId message \<noteq> userId \<and> receiverId message \<noteq> userId
          then Fail 403 ''Access denied''
          else Ok \<lparr>hOriginalContent = originalContent message,
                    hCurrentContent = content message,
                    hEditHistory = historyOf message,
                    hIsDeleted = isDeleted message,
                    hDeletedAt = deletedAt message,
                    hIsEdited = isEdited message,
                    hEditedAt = editedAt message\<rparr>)"

section \<open>REST handlers (controllers/conversation.controller.ts)\<close>

text \<open>One element of the conversation list: \<open>{ id, participant, lastMessage, unreadCount, updatedAt }\<close>.\<close>

record preview =
  pId :: nat
  pParticipant :: participant
  pLastMessage :: "sanitized option"
  pUnreadCount :: nat
  pUpdatedAt :: date

text \<open>The controller's \<open>sanitizeMessage\<close> (lines 13-18) passes an absent message through.\<close>

definition sanitizeLastMessage :: "message option \<Rightarrow> sanitized option" where
  "sanitizeLastMessage message = map_option sanitizeMessage message"

text \<open>
  The three message queries of \<open>getConversations\<close>, read as relational queries:
  the rows of the user in the listed conversations; of these, the rows whose id is
  among the greatest ids of the conversations
  (\<open>SELECT MAX(id) ... GROUP BY "conversationId"\<close>);
  and the number of unread rows addressed to the user in one conversation.
\<close>

definition userRows :: "state \<Rightarrow> nat \<Rightarrow> nat list \<Rightarrow> message list" where
  "userRows s userId ids =
     filter (\<lambda>m. conversationId m \<in> set ids \<and> (senderId m = userId \<or> receiverId m = userId))
       (messages s)"

definition maxIds :: "message list \<Rightarrow> nat list" where
  "maxIds rows =
     map (\<lambda>k. Max (set (map mId (filter (\<lambda>x. conversationId x = k) rows))))
       (remdups (map conversationId rows))"

definition lastMessagesOf :: "state \<Rightarrow> nat \<Rightarrow> nat list \<Rightarrow> message list" where
  "lastMessagesOf s userId ids =
     (let rows = userRows s userId ids
      in filter (\<lambda>m. mId m \<in> set (maxIds rows)) rows)"

definition unreadCountOf :: "state \<Rightarrow> nat \<Rightarrow> nat list \<Rightarrow> nat \<Rightarrow> nat" where
  "unreadCountOf s userId ids k =
     length (filter (\<lambda>m. conversationId m \<in> set ids \<and> receiverId m = userId \<and> \<not> isRead m \<and>
                          conversationId m = k) (messages s))"

text \<open>
  One element of the response (lines 69-96): \<open>null\<close> when the last message does not
  involve the user and the participant; the element is dropped as well when the
  participant was not found.
\<close>

definition previewOf ::
  "nat \<Rightarrow> participant list \<Rightarrow> message list \<Rightarrow> (nat \<Rightarrow> nat) \<Rightarrow> conversation \<Rightarrow> preview option" where
  "previewOf userId participants lastMessages unreadCount conv =
     (let participantId = (if user1Id conv = userId then user2Id conv else user1Id conv);
          p = find (\<lambda>p. uId p = participantId) participants;
          lastMessage = find (\<lambda>m. conversationId m = cId conv) lastMessages
      in if (case lastMessage of
               None \<Rightarrow> False
             | Some m \<Rightarrow>
                 \<not> ((senderId m = userId \<or> receiverId m = userId) \<and>
                    (senderId m = participantId \<or> receiverId m = participantId)))
         then None
         else map_option
                (\<lambda>q. \<lparr>pId = cId conv, pParticipant = q,
                      pLastMessage = sanitizeLastMessage lastMessage,
                      pUnreadCount = unreadCount (cId conv),
                      pUpdatedAt = updatedAt conv\<rparr>) p)"

definition getConversations :: "state \<Rightarrow> nat \<Rightarrow> preview list response" where
  "getConversations s userId =
     (let convs = rev (sort_key updatedAt
                    (filter (\<lambda>c. user1Id c = userId \<or> user2Id c = userId) (conversations s)));
          participantIds = map (\<lambda>c. if user1Id c = userId then user2Id c else user1Id c) convs;
          participants = map participant.truncate
                           (filter (\<lambda>u. uId u \<in> set participantIds) (users s));
          conversationIds = map cId convs;
          lastMessages = lastMessagesOf s userId conversationIds
      in Ok (List.map_filter
               (previewOf userId participants lastMessages
                  (unreadCountOf s userId conversationIds))
               convs))"

text \<open>\<open>if (!participantId)\<close> also refuses the id 0.\<close>

definition createConversation :: "state \<Rightarrow> nat \<Rightarrow> nat \<Rightarrow> date \<Rightarrow> state \<times> preview response" where
  "createConversation s userId participantId now =
     (if participantId = 0 then (s, Fail 400 ''Participant ID is required'')
      else case findUser s participantId of
        None \<Rightarrow> (s, Fail 404 ''User not found'')
      | Some p \<Rightarrow>
          (case resolveConversation s userId participantId now of (s1, conv) \<Rightarrow>
             (s1, Ok \<lparr>pId = cId conv, pParticipant = participant.truncate p,
                      pLastMessage = None, pUnreadCount = 0,
                      pUpdatedAt = updatedAt conv\<rparr>)))"

section \<open>Example stores\<close>

text \<open>
  Two registered users, both offline; and the store after user 1 has sent \<open>"a"\<close> to
  user 2 at time 100.
\<close>

definition user1 :: user where
  "user1 = \<lparr>uId = 1, username = js ''ann'', email = js ''ann@example.org'', avatarUrl = None,
            status = ''offline'', lastSeen = None, password = js ''x''\<rparr>"

definition user2 :: user where
  "user2 = \<lparr>uId = 2, username = js ''bob'', email = js ''bob@example.org'', avatarUrl = None,
            status = ''offline'', lastSeen = None, password = js ''y''\<rparr>"

definition store0 :: state where
  "store0 = \<lparr>users = [user1, user2], conversations = [], messages = [],
             userSockets = Map.empty, nextConversationId = 1, nextMessageId = 1\<rparr>"

definition message1 :: message where
  "message1 = \<lparr>mId = 1, content = [0x61], senderId = 1, receiverId = 2, conversationId = 1,
               isRead = False, isDelivered = False, isDeleted = False, deletedAt = None,
               isEdited = False, editedAt = None, createdAt = 100,
               originalContent = Some [0x61], editHistory = Some []\<rparr>"

definition store1 :: state where
  "store1 = \<lparr>users = [user1, user2],
             conversations = [\<lparr>cId = 1, user1Id = 1, user2Id = 2, updatedAt = 100\<rparr>],
             messages = [message1],
             userSockets = Map.empty, nextConversationId = 2, nextMessageId = 2\<rparr>"

text \<open>
  The store after user 1 has then edited the message to \<open>"b"\<close> at time 120, and the
  store after user 1 has then deleted it at time 150.
\<close>

definition message1b :: message where
  "message1b = \<lparr>mId = 1, content = [0x62], senderId = 1, receiverId = 2, conversationId = 1,
                isRead = False, isDelivered = False, isDeleted = False, deletedAt = None,
                isEdited = True, editedAt = Some 120, createdAt = 100,
                originalContent = Some [0x61],
                editHistory = Some [\<lparr>editContent = [0x61], editEditedAt = 120\<rparr>]\<rparr>"

definition store1b :: state where
  "store1b = store1\<lparr>messages := [message1b]\<rparr>"

definition message1d :: message where
  "message1d = message1b\<lparr>isDeleted := True, deletedAt := Some 150, content := placeholder\<rparr>"

definition store1d :: state where
  "store1d = store1\<lparr>messages := [message1d]\<rparr>"

section \<open>Inbound events and reachable stores\<close>

text \<open>
  The five inbound message events a connection can send, with their data, and the
  dispatch of \<open>socket.on\<close> (socket.handler.ts 50-54).
\<close>

datatype inbound =
    SendMessage nat jsstring
  | MarkAsRead nat "nat option"
  | TypingIn nat
  | UpdateMessage nat jsstring
  | DeleteMessage nat

fun handleEvent :: "state \<Rightarrow> nat \<Rightarrow> inbound \<Rightarrow> date \<Rightarrow> state \<times> emission list" where
  "handleEvent s userId (SendMessage rId c) now = handleSendMessage s userId rId c now"
| "handleEvent s userId (MarkAsRead msgId convId) now = handleMarkAsRead s userId msgId convId"
| "handleEvent s userId (TypingIn convId) now = handleTyping s userId convId"
| "handleEvent s userId (UpdateMessage msgId c) now = handleUpdateMessage s userId msgId c now"
| "handleEvent s userId (DeleteMessage msgId) now = handleDeleteMessage s userId msgId now"

text \<open>
  The primary key of the message table: ids are distinct and below the next id of
  the sequence.
\<close>

definition messageKeysOk :: "state \<Rightarrow> bool" where
  "messageKeysOk s \<longleftrightarrow>
     distinct (map mId (messages s)) \<and> list_all (\<lambda>m. mId m < nextMessageId s) (messages s)"

text \<open>
  The stores the system can be in: it starts with no conversation and no message;
  then connections open and close, connected users send events, REST calls come
  in, and the user table changes (registration and login, auth.controller.ts).
\<close>

inductive reachable :: "state \<Rightarrow> bool" where
  start: "conversations s = [] \<Longrightarrow> messages s = [] \<Longrightarrow> reachable s"
| event: "reachable s \<Longrightarrow> reachable (fst (handleEvent s userId ev now))"
| connect: "reachable s \<Longrightarrow> reachable (fst (handleConnection s userId socketId now))"
| disconnect: "reachable s \<Longrightarrow> reachable (fst (handleDisconnect s userId now))"
| restRead: "reachable s \<Longrightarrow> reachable (fst (markAsRead s userId msgId))"
| restUpdate: "reachable s \<Longrightarrow> reachable (fst (updateMessage s userId msgId c now))"
| restDelete: "reachable s \<Longrightarrow> reachable (fst (deleteMessage s userId msgId now))"
| restCreate: "reachable s \<Longrightarrow> reachable (fst (createConversation s userId participantId now))"
| accounts: "reachable s \<Longrightarrow> reachable (s\<lparr>users := us\<rparr>)"

text \<open>What routing reads of a message: its id, its sender and its receiver.\<close>

definition routingKey :: "message \<Rightarrow> nat \<times> nat \<times> nat" where
  "routingKey m = (mId m, senderId m, receiverId m)"

text \<open>
  The channels of a user: the connection the user is calling on and the user's room.
  An emission about a message goes to a party when the message with that id is
  stored and the channel is one of its sender or of its receiver; a typing
  emission, when the conversation is stored and the channel is one of a
  participant. The two other events are not about a message.
\<close>

definition channelsOf :: "nat \<Rightarrow> channel set" where
  "channelsOf u = {Socket u, Room u}"

definition partyOfMessage :: "state \<Rightarrow> nat \<Rightarrow> channel \<Rightarrow> bool" where
  "partyOfMessage s k ch =
     (case findMessage s k of
        None \<Rightarrow> False
      | Some m \<Rightarrow> ch \<in> channelsOf (senderId m) \<union> channelsOf (receiverId m))"

definition partyOfConversation :: "state \<Rightarrow> nat \<Rightarrow> channel \<Rightarrow> bool" where
  "partyOfConversation s k ch =
     (case findConversationById s k of
        None \<Rightarrow> False
      | Some conv \<Rightarrow> ch \<in> channelsOf (user1Id conv) \<union> channelsOf (user2Id conv))"

fun toParty :: "state \<Rightarrow> emission \<Rightarrow> bool" where
  "toParty s (ch, NewMessage p) =
     (partyOfMessage s (mId p) ch \<and> ch \<in> channelsOf (senderId p) \<union> channelsOf (receiverId p))"
| "toParty s (ch, MessageUpdated p) =
     (partyOfMessage s (mId p) ch \<and> ch \<in> channelsOf (senderId p) \<union> channelsOf (receiverId p))"
| "toParty s (ch, MessageDeleted p) =
     (partyOfMessage s (mId p) ch \<and> ch \<in> channelsOf (senderId p) \<union> channelsOf (receiverId p))"
| "toParty s (ch, MessageDelivered k c) = partyOfMessage s k ch"
| "toParty s (ch, MessageRead k c) = partyOfMessage s k ch"
| "toParty s (ch, Typing u c) = partyOfConversation s c ch"
| "toParty s (ch, UserStatusChange u st seen) = True"
| "toParty s (ch, Error msg) = True"

section \<open>The interface without the history route\<close>

text \<open>
  Every request that reads or writes messages, except
  \<open>GET /messages/:messageId/history\<close>: the socket events with connection and
  disconnection, and the REST routes of routes/index.ts, conversation.routes.ts and
  message.routes.ts. \<open>serve\<close> answers a request with the handler the router binds to
  it, and returns what the handler sends out. (The auth and user routes read and
  write the user table only.)
\<close>

datatype request =
    Event nat inbound date
  | Connect nat string date
  | Disconnect nat date
  | GetMessages nat nat "nat option" "nat option"
  | GetConversations nat
  | CreateConversation nat nat date
  | PutRead nat nat
  | PutMessage nat nat jsstring date
  | DeleteRoute nat nat date

datatype answer =
    Emitted "emission list"
  | MessageList "sanitized list response"
  | PreviewList "preview list response"
  | OnePreview "preview response"
  | Text "string response"
  | OneMessage "sanitized response"

fun serve :: "state \<Rightarrow> request \<Rightarrow> state \<times> answer" where
  "serve s (Event userId ev now) = map_prod (\<lambda>x. x) Emitted (handleEvent s userId ev now)"
| "serve s (Connect userId socketId now) =
     map_prod (\<lambda>x. x) Emitted (handleConnection s userId socketId now)"
| "serve s (Disconnect userId now) = map_prod (\<lambda>x. x) Emitted (handleDisconnect s userId now)"
| "serve s (GetMessages userId convId pageQ limitQ) =
     (s, MessageList (getMessages s userId convId pageQ limitQ))"
| "serve s (GetConversations userId) = (s, PreviewList (getConversations s userId))"
| "serve s (CreateConversation userId participantId now) =
     map_prod (\<lambda>x. x) OnePreview (createConversation s userId participantId now)"
| "serve s (PutRead userId msgId) = map_prod (\<lambda>x. x) Text (markAsRead s userId msgId)"
| "serve s (PutMessage userId msgId c now) =
     map_prod (\<lambda>x. x) OneMessage (updateMessage s userId msgId c now)"
| "serve s (DeleteRoute userId msgId now) =
     map_prod (\<lambda>x. x) Text (deleteMessage s userId msgId now)"

text \<open>
  The events a request sends out. The REST controllers hold no reference to the
  socket server: a REST route sends its response and no event.
\<close>

fun emissionsOf :: "answer \<Rightarrow> emission list" where
  "emissionsOf (Emitted es) = es"
| "emissionsOf (MessageList r) = []"
| "emissionsOf (PreviewList r) = []"
| "emissionsOf (OnePreview r) = []"
| "emissionsOf (Text r) = []"
| "emissionsOf (OneMessage r) = []"

text \<open>
  Two stores that differ at most in the \<open>originalContent\<close> and \<open>editHistory\<close> of
  their messages.
\<close>

definition sameSanitized :: "state \<Rightarrow> state \<Rightarrow> bool" where
  "sameSanitized s t \<longleftrightarrow>
     users s = users t \<and> conversations s = conversations t \<and>
     userSockets s = userSockets t \<and>
     nextConversationId s = nextConversationId t \<and> nextMessageId s = nextMessageId t \<and>
     map sanitizeMessage (messages s) = map sanitizeMessage (messages t)"

text \<open>\<open>store1\<close> with other backup fields in its message.\<close>

definition store1' :: state where
  "store1' = store1\<lparr>messages := [message1\<lparr>originalContent := Some [0x7A],
                                            editHistory := None\<rparr>]\<rparr>"

section \<open>The read flag\<close>

text \<open>The invariant of the message flags: a read message is a delivered one.\<close>

definition readDelivered :: "state \<Rightarrow> bool" where
  "readDelivered s \<longleftrightarrow> list_all (\<lambda>m. isRead m \<longrightarrow> isDelivered m) (messages s)"

section \<open>Invariants of the conversation table and of the backup fields\<close>

text \<open>
  The unordered pair of a conversation; the conversation table holds each id once,
  below the next id of the sequence, and each unordered pair once.
\<close>

definition pairOf :: "conversation \<Rightarrow> nat \<times> nat" where
  "pairOf c = (min (user1Id c) (user2Id c), max (user1Id c) (user2Id c))"

definition conversationsUnique :: "state \<Rightarrow> bool" where
  "conversationsUnique s \<longleftrightarrow>
     distinct (map cId (conversations s)) \<and>
     list_all (\<lambda>c. cId c < nextConversationId s) (conversations s) \<and>
     distinct (map pairOf (conversations s))"

text \<open>Every stored message has its backup fields set.\<close>

definition backupKept :: "state \<Rightarrow> bool" where
  "backupKept s \<longleftrightarrow>
     list_all (\<lambda>m. originalContent m \<noteq> None \<and> editHistory m \<noteq> None) (messages s)"

section \<open>Basic facts about the store\<close>

lemma find_mId: "find (\<lambda>m. mId m = k) xs = Some m \<Longrightarrow> mId m = k \<and> m \<in> set xs"
  by (induction xs) (auto split: if_splits)

lemma find_replace_hit:
  "find (\<lambda>m. mId m = k) xs = Some m \<Longrightarrow> mId m' = k \<Longrightarrow>
   find (\<lambda>m. mId m = k) (map (\<lambda>x. if mId x = mId m' then m' else x) xs) = Some m'"
  by (induction xs) (auto split: if_splits)

lemma find_replace_miss:
  "mId m' \<noteq> k \<Longrightarrow>
   find (\<lambda>m. mId m = k) (map (\<lambda>x. if mId x = mId m' then m' else x) xs) =
   find (\<lambda>m. mId m = k) xs"
  by (induction xs) (auto split: if_splits)

lemma findMessage_mId: "findMessage s k = Some m \<Longrightarrow> mId m = k"
  unfolding findMessage_def by (rule find_mId [THEN conjunct1])

lemma findMessage_mem: "findMessage s k = Some m \<Longrightarrow> m \<in> set (messages s)"
  unfolding findMessage_def by (rule find_mId [THEN conjunct2])

lemma findMessage_saveMessage:
  "findMessage s k = Some m \<Longrightarrow> mId m' = k \<Longrightarrow> findMessage (saveMessage s m') k = Some m'"
  using find_replace_hit [of k "messages s" m m']
  by (simp add: findMessage_def saveMessage_def)

lemma store1_reached: "handleSendMessage store0 1 2 [0x61] 100 =
    (store1, [(Socket 1, NewMessage (sanitizeMessage message1))])"
  by (simp add: handleSendMessage_def store0_def store1_def message1_def findUser_def
      user1_def user2_def resolveConversation_def findConversation_def
      insertConversation_def insertMessage_def saveConversation_def Let_def)

section \<open>Message lifecycle: edit\<close>

lemma editMessage_simps:
  "mId (editMessage m c now) = mId m"
  "senderId (editMessage m c now) = senderId m"
  "receiverId (editMessage m c now) = receiverId m"
  "content (editMessage m c now) = trim c"
  "isEdited (editMessage m c now)"
  "originalContent (editMessage m c now) = originalContent m"
  "historyOf (editMessage m c now) =
     historyOf m @ [\<lparr>editContent = content m, editEditedAt = now\<rparr>]"
  by (simp_all add: editMessage_def historyOf_def)

text \<open>
  C4. Let the stored message \<open>m\<close> be not deleted, let its sender edit it with a content
  that is not empty after trimming. Then the edit succeeds on the real-time path and
  on the REST path (the updated, sanitized message is sent to the sender and to the
  receiver, or returned with status 200), and the message \<open>m'\<close> stored afterwards has
  a history one entry longer: the old history followed by one entry holding the
  content of \<open>m\<close>; its content is the trimmed new content and \<open>isEdited\<close> is true.
\<close>

theorem edit_appends_prior_content:
  assumes "findMessage s msgId = Some m" and "senderId m = userId" and "\<not> isDeleted m"
    and "trim c \<noteq> []"
  shows "\<exists>m'. handleUpdateMessage s userId msgId c now =
               (saveMessage s m',
                [(Socket userId, MessageUpdated (sanitizeMessage m')),
                 (Room (receiverId m), MessageUpdated (sanitizeMessage m'))]) \<and>
              updateMessage s userId msgId c now =
                (saveMessage s m', Ok (sanitizeMessage m')) \<and>
              findMessage (saveMessage s m') msgId = Some m' \<and>
              length (historyOf m') = Suc (length (historyOf m)) \<and>
              historyOf m' = historyOf m @ [\<lparr>editContent = content m, editEditedAt = now\<rparr>] \<and>
              content m' = trim c \<and> isEdited m'"
proof -
  let ?m' = "editMessage m c now"
  from assms(4) have c: "c \<noteq> []" by (auto simp: trim_def)
  have "handleUpdateMessage s userId msgId c now =
               (saveMessage s ?m',
                [(Socket userId, MessageUpdated (sanitizeMessage ?m')),
                 (Room (receiverId m), MessageUpdated (sanitizeMessage ?m'))])"
    using assms c by (simp add: handleUpdateMessage_def Let_def editMessage_simps)
  moreover have "updateMessage s userId msgId c now =
      (saveMessage s ?m', Ok (sanitizeMessage ?m'))"
    using assms c by (simp add: updateMessage_def Let_def)
  moreover have "findMessage (saveMessage s ?m') msgId = Some ?m'"
    using assms(1) findMessage_mId [OF assms(1)]
    by (intro findMessage_saveMessage) (simp_all add: editMessage_simps)
  ultimately show ?thesis
    by (intro exI [of _ ?m']) (simp add: editMessage_simps)
qed

theorem edit_appends_prior_content_witness:
  "findMessage store1 1 = Some message1 \<and> senderId message1 = 1 \<and> \<not> isDeleted message1 \<and>
   trim [0x20, 0x62] \<noteq> [] \<and>
   (\<exists>m'. handleUpdateMessage store1 1 1 [0x20, 0x62] 200 =
               (saveMessage store1 m',
                [(Socket 1, MessageUpdated (sanitizeMessage m')),
                 (Room 2, MessageUpdated (sanitizeMessage m'))]) \<and>
         updateMessage store1 1 1 [0x20, 0x62] 200 =
                (saveMessage store1 m', Ok (sanitizeMessage m')) \<and>
         findMessage (saveMessage store1 m') 1 = Some m' \<and>
         length (historyOf m') = 1 \<and>
         historyOf m' = [\<lparr>editContent = [0x61], editEditedAt = 200\<rparr>] \<and>
         content m' = [0x62] \<and> isEdited m')"
proof -
  have h1: "findMessage store1 1 = Some message1"
    by (simp add: findMessage_def store1_def message1_def)
  have h2: "senderId message1 = 1" and h3: "\<not> isDeleted message1"
    by (simp_all add: message1_def)
  have h4: "trim [0x20, 0x62] \<noteq> []" and t: "trim [0x20, 0x62] = [0x62]"
    by (simp_all add: trim_def isWhiteSpace_def)
  have v: "receiverId message1 = 2" "historyOf message1 = []" "content message1 = [0x61]"
    by (simp_all add: message1_def historyOf_def)
  show ?thesis
    using edit_appends_prior_content [OF h1 h2 h3 h4, of 200] h1 h2 h3 h4
    by (simp add: v t)
qed

section \<open>Message lifecycle: delete\<close>

lemma softDelete_simps:
  "mId (softDelete m now) = mId m"
  "senderId (softDelete m now) = senderId m"
  "receiverId (softDelete m now) = receiverId m"
  "content (softDelete m now) = placeholder"
  "isDeleted (softDelete m now)"
  "deletedAt (softDelete m now) = Some now"
  "isEdited (softDelete m now) = isEdited m"
  "editedAt (softDelete m now) = editedAt m"
  "originalContent (softDelete m now) = originalContent m"
  "editHistory (softDelete m now) = editHistory m"
  "historyOf (softDelete m now) = historyOf m"
  by (simp_all add: softDelete_def historyOf_def)

lemma handleDeleteMessage_by_sender:
  assumes "findMessage s msgId = Some m" and "senderId m = userId"
  shows "handleDeleteMessage s userId msgId now =
           (saveMessage s (softDelete m now),
            [(Socket userId, MessageDeleted (sanitizeMessage (softDelete m now))),
             (Room (receiverId m), MessageDeleted (sanitizeMessage (softDelete m now)))])"
  using assms by (simp add: handleDeleteMessage_def Let_def softDelete_simps)

lemma deleteMessage_by_sender:
  assumes "findMessage s msgId = Some m" and "senderId m = userId"
  shows "deleteMessage s userId msgId now =
           (saveMessage s (softDelete m now), Ok ''Message deleted successfully'')"
  using assms by (simp add: deleteMessage_def)

lemma findMessage_after_delete:
  assumes "findMessage s msgId = Some m"
  shows "findMessage (saveMessage s (softDelete m now)) msgId = Some (softDelete m now)"
  using assms findMessage_mId [OF assms]
  by (intro findMessage_saveMessage) (simp_all add: softDelete_simps)

lemma store1b_reached:
  "handleUpdateMessage store1 1 1 [0x62] 120 =
     (store1b, [(Socket 1, MessageUpdated (sanitizeMessage message1b)),
                (Room 2, MessageUpdated (sanitizeMessage message1b))])"
  by (simp add: handleUpdateMessage_def findMessage_def store1_def store1b_def message1_def
      message1b_def trim_def isWhiteSpace_def editMessage_def historyOf_def saveMessage_def
      Let_def)

lemma store1d_reached:
  "handleDeleteMessage store1b 1 1 150 =
     (store1d, [(Socket 1, MessageDeleted (sanitizeMessage message1d)),
                (Room 2, MessageDeleted (sanitizeMessage message1d))])"
  by (simp add: handleDeleteMessage_def findMessage_def store1_def store1b_def store1d_def
      message1b_def message1d_def softDelete_def saveMessage_def Let_def)

lemma findMessage_store1b: "findMessage store1b 1 = Some message1b"
  by (simp add: findMessage_def store1b_def store1_def message1b_def)

lemma findMessage_store1d: "findMessage store1d 1 = Some message1d"
  by (simp add: findMessage_def store1d_def store1_def message1d_def message1b_def)

text \<open>
  C5. Let the sender of the stored message \<open>m\<close> delete it, on the real-time path or on
  the REST path. The delete succeeds, and the message \<open>m'\<close> stored afterwards has
  \<open>isDeleted\<close> set and the placeholder as content, while \<open>originalContent\<close> and
  \<open>editHistory\<close> are those of \<open>m\<close>. \<open>getMessageHistory\<close>, called afterwards by the
  sender or the receiver, answers with the stored \<open>originalContent\<close> of \<open>m\<close>, every
  entry of the stored \<open>editHistory\<close> of \<open>m\<close> in order (none when the field is null),
  the placeholder as current content, and the deletion and edit metadata.
\<close>

theorem delete_keeps_backup_fields:
  assumes "findMessage s msgId = Some m" and "senderId m = userId"
    and "u = senderId m \<or> u = receiverId m"
  shows "\<exists>m'. handleDeleteMessage s userId msgId now =
               (saveMessage s m',
                [(Socket userId, MessageDeleted (sanitizeMessage m')),
                 (Room (receiverId m), MessageDeleted (sanitizeMessage m'))]) \<and>
              deleteMessage s userId msgId now =
                (saveMessage s m', Ok ''Message deleted successfully'') \<and>
              findMessage (saveMessage s m') msgId = Some m' \<and>
              isDeleted m' \<and> content m' = placeholder \<and>
              originalContent m' = originalContent m \<and> editHistory m' = editHistory m \<and>
              getMessageHistory (saveMessage s m') u msgId =
                Ok \<lparr>hOriginalContent = originalContent m, hCurrentContent = placeholder,
                    hEditHistory = (case editHistory m of None \<Rightarrow> [] | Some h \<Rightarrow> h),
                    hIsDeleted = True, hDeletedAt = Some now,
                    hIsEdited = isEdited m, hEditedAt = editedAt m\<rparr>"
proof -
  let ?m' = "softDelete m now"
  have f: "findMessage (saveMessage s ?m') msgId = Some ?m'"
    by (rule findMessage_after_delete [OF assms(1)])
  have "getMessageHistory (saveMessage s ?m') u msgId =
          Ok \<lparr>hOriginalContent = originalContent m, hCurrentContent = placeholder,
              hEditHistory = (case editHistory m of None \<Rightarrow> [] | Some h \<Rightarrow> h),
              hIsDeleted = True, hDeletedAt = Some now,
              hIsEdited = isEdited m, hEditedAt = editedAt m\<rparr>"
    using assms(3) by (auto simp add: getMessageHistory_def f softDelete_simps historyOf_def)
  then show ?thesis
    using handleDeleteMessage_by_sender [OF assms(1,2)] deleteMessage_by_sender [OF assms(1,2)] f
    by (intro exI [of _ ?m']) (simp add: softDelete_simps)
qed

theorem delete_keeps_backup_fields_witness:
  "findMessage store1b 1 = Some message1b \<and> senderId message1b = 1 \<and>
   (2 = senderId message1b \<or> 2 = receiverId message1b) \<and>
   editHistory message1b = Some [\<lparr>editContent = [0x61], editEditedAt = 120\<rparr>] \<and>
   content message1b = [0x62] \<and>
   (\<exists>m'. handleDeleteMessage store1b 1 1 150 =
               (saveMessage store1b m',
                [(Socket 1, MessageDeleted (sanitizeMessage m')),
                 (Room 2, MessageDeleted (sanitizeMessage m'))]) \<and>
         deleteMessage store1b 1 1 150 =
                (saveMessage store1b m', Ok ''Message deleted successfully'') \<and>
         findMessage (saveMessage store1b m') 1 = Some m' \<and>
         isDeleted m' \<and> content m' = placeholder \<and>
         originalContent m' = Some [0x61] \<and>
         editHistory m' = Some [\<lparr>editContent = [0x61], editEditedAt = 120\<rparr>] \<and>
         getMessageHistory (saveMessage store1b m') 2 1 =
                Ok \<lparr>hOriginalContent = Some [0x61], hCurrentContent = placeholder,
                    hEditHistory = [\<lparr>editContent = [0x61], editEditedAt = 120\<rparr>],
                    hIsDeleted = True, hDeletedAt = Some 150,
                    hIsEdited = True, hEditedAt = Some 120\<rparr>)"
proof -
  have h1: "findMessage store1b 1 = Some message1b" by (rule findMessage_store1b)
  have h2: "senderId message1b = 1"
    and h3: "2 = senderId message1b \<or> 2 = receiverId message1b"
    by (simp_all add: message1b_def)
  have v: "receiverId message1b = 2"
    "originalContent message1b = Some [0x61]"
    "editHistory message1b = Some [\<lparr>editContent = [0x61], editEditedAt = 120\<rparr>]"
    "isEdited message1b = True" "editedAt message1b = Some 120" "content message1b = [0x62]"
    by (simp_all add: message1b_def)
  show ?thesis
    using delete_keeps_backup_fields [OF h1 h2 h3, of 150] h1 h2 h3
    by (simp add: v)
qed

text \<open>
  C10, as stated, fails on the REST path: user 1 deletes the deleted message 1 again
  with \<open>DELETE /messages/1\<close>. The write is made and the answer is status 200, but
  no \<open>messageDeleted\<close> event is sent to anyone.
\<close>

theorem rest_delete_again_emits_nothing:
  "findMessage store1d 1 = Some message1d \<and> isDeleted message1d \<and> senderId message1d = 1 \<and>
   deleteMessage store1d 1 1 170 =
     (store1\<lparr>messages := [message1d\<lparr>deletedAt := Some 170\<rparr>]\<rparr>,
      Ok ''Message deleted successfully'') \<and>
   snd (serve store1d (DeleteRoute 1 1 170)) = Text (Ok ''Message deleted successfully'') \<and>
   emissionsOf (snd (serve store1d (DeleteRoute 1 1 170))) = []"
  by (simp add: deleteMessage_def findMessage_def store1d_def store1_def message1d_def
      message1b_def softDelete_def saveMessage_def)

text \<open>
  C10, amended. Let the stored message \<open>m\<close> be deleted already, and let its sender
  delete it again. Neither path refuses: the message stored afterwards is still
  deleted, its content is the placeholder, and \<open>deletedAt\<close> is the time of the second
  delete. The real-time handler sends \<open>messageDeleted\<close> to the sender and to the
  receiver again; the REST handler answers with status 200 and sends no event.
\<close>

theorem delete_again_succeeds:
  assumes "findMessage s msgId = Some m" and "senderId m = userId" and "isDeleted m"
  shows "\<exists>m'. handleDeleteMessage s userId msgId now =
               (saveMessage s m',
                [(Socket (senderId m), MessageDeleted (sanitizeMessage m')),
                 (Room (receiverId m), MessageDeleted (sanitizeMessage m'))]) \<and>
              deleteMessage s userId msgId now =
                (saveMessage s m', Ok ''Message deleted successfully'') \<and>
              findMessage (saveMessage s m') msgId = Some m' \<and>
              isDeleted m' \<and> content m' = placeholder \<and> deletedAt m' = Some now \<and>
              emissionsOf (snd (serve s (Event userId (DeleteMessage msgId) now))) =
                [(Socket (senderId m), MessageDeleted (sanitizeMessage m')),
                 (Room (receiverId m), MessageDeleted (sanitizeMessage m'))] \<and>
              emissionsOf (snd (serve s (DeleteRoute userId msgId now))) = []"
  using handleDeleteMessage_by_sender [OF assms(1,2), of now]
    deleteMessage_by_sender [OF assms(1,2), of now]
    findMessage_after_delete [OF assms(1), of now] assms(2)
  by (intro exI [of _ "softDelete m now"]) (simp add: softDelete_simps)

theorem delete_again_succeeds_witness:
  "findMessage store1d 1 = Some message1d \<and> senderId message1d = 1 \<and> isDeleted message1d \<and>
   deletedAt message1d = Some 150 \<and>
   (\<exists>m'. handleDeleteMessage store1d 1 1 170 =
               (saveMessage store1d m',
                [(Socket 1, MessageDeleted (sanitizeMessage m')),
                 (Room 2, MessageDeleted (sanitizeMessage m'))]) \<and>
         deleteMessage store1d 1 1 170 =
                (saveMessage store1d m', Ok ''Message deleted successfully'') \<and>
         findMessage (saveMessage store1d m') 1 = Some m' \<and>
         isDeleted m' \<and> content m' = placeholder \<and> deletedAt m' = Some 170 \<and>
         emissionsOf (snd (serve store1d (Event 1 (DeleteMessage 1) 170))) =
                [(Socket 1, MessageDeleted (sanitizeMessage m')),
                 (Room 2, MessageDeleted (sanitizeMessage m'))] \<and>
         emissionsOf (snd (serve store1d (DeleteRoute 1 1 170))) = [])"
proof -
  have h1: "findMessage store1d 1 = Some message1d" by (rule findMessage_store1d)
  have h2: "senderId message1d = 1"
    and h3: "isDeleted message1d"
    and v: "receiverId message1d = 2" "deletedAt message1d = Some 150"
    by (simp_all add: message1d_def message1b_def)
  show ?thesis
    using delete_again_succeeds [OF h1 h2 h3, of 170] h1 h2 h3
    by (simp add: v)
qed

section \<open>Conversation resolution\<close>

lemma find_snoc: "find P (xs @ [y]) = (case find P xs of None \<Rightarrow> if P y then Some y else None | Some x \<Rightarrow> Some x)"
  by (induction xs) auto

lemma findConversation_sym: "findConversation s a b = findConversation s b a"
proof -
  have "(\<lambda>c. (user1Id c = a \<and> user2Id c = b) \<or> (user1Id c = b \<and> user2Id c = a)) =
        (\<lambda>c. (user1Id c = b \<and> user2Id c = a) \<or> (user1Id c = a \<and> user2Id c = b))"
    by auto
  then show ?thesis unfolding findConversation_def by (rule arg_cong2 [where f = find]) simp
qed

lemma findConversation_Some:
  "findConversation s a b = Some c \<Longrightarrow>
   c \<in> set (conversations s) \<and>
   ((user1Id c = a \<and> user2Id c = b) \<or> (user1Id c = b \<and> user2Id c = a))"
  by (auto simp: findConversation_def find_Some_iff)

lemma findConversation_None:
  "findConversation s a b = None \<longleftrightarrow>
   (\<forall>c \<in> set (conversations s).
      \<not> ((user1Id c = a \<and> user2Id c = b) \<or> (user1Id c = b \<and> user2Id c = a)))"
  by (auto simp add: findConversation_def find_None_iff)

lemma resolveConversation_found:
  "findConversation s a b = Some c \<Longrightarrow> resolveConversation s a b now = (s, c)"
  by (simp add: resolveConversation_def)

lemma findConversation_after_resolve:
  "findConversation (fst (resolveConversation s a b now)) a b =
     Some (snd (resolveConversation s a b now))"
  by (cases "findConversation s a b")
     (simp_all add: resolveConversation_def insertConversation_def Let_def
        findConversation_def find_snoc)

lemma pair_query:
  "(\<lambda>c. {user1Id c, user2Id c} = {a, b}) =
   (\<lambda>c. (user1Id c = a \<and> user2Id c = b) \<or> (user1Id c = b \<and> user2Id c = a))"
  by (auto simp: doubleton_eq_iff)

lemma find_pair:
  "find (\<lambda>c. {user1Id c, user2Id c} = {a, b}) (conversations s) = findConversation s a b"
  by (simp only: pair_query findConversation_def)

lemma resolveConversation_users:
  "{user1Id (snd (resolveConversation s a b t)), user2Id (snd (resolveConversation s a b t))} =
   {a, b}"
proof (cases "findConversation s a b")
  case None
  then show ?thesis by (simp add: resolveConversation_def insertConversation_def Let_def)
next
  case (Some c)
  with findConversation_Some [OF Some] show ?thesis
    by (auto simp: resolveConversation_def doubleton_eq_iff)
qed

text \<open>
  C2. Resolving (a, b) and resolving (b, a) on the same store give the same
  conversation id, and the conversation returned has the users a and b. When a
  conversation of a and b is stored, in either order, the first such row is
  returned for (a, b) and for (b, a), and the store is unchanged; when none is
  stored, one row with the next id and the users a, b is appended and returned.
  After (a, b) has been resolved, resolving (b, a) returns that very conversation
  and leaves the store as it is: no second conversation is made.
\<close>

theorem resolve_unordered_pair:
  "cId (snd (resolveConversation s a b t)) = cId (snd (resolveConversation s b a t')) \<and>
   {user1Id (snd (resolveConversation s a b t)), user2Id (snd (resolveConversation s a b t))} =
     {a, b} \<and>
   (case find (\<lambda>c. {user1Id c, user2Id c} = {a, b}) (conversations s) of
      Some c \<Rightarrow>
        c \<in> set (conversations s) \<and>
        resolveConversation s a b t = (s, c) \<and> resolveConversation s b a t' = (s, c)
    | None \<Rightarrow>
        resolveConversation s a b t =
          (s\<lparr>conversations :=
               conversations s @
               [\<lparr>cId = nextConversationId s, user1Id = a, user2Id = b, updatedAt = t\<rparr>],
             nextConversationId := Suc (nextConversationId s)\<rparr>,
           \<lparr>cId = nextConversationId s, user1Id = a, user2Id = b, updatedAt = t\<rparr>)) \<and>
   resolveConversation (fst (resolveConversation s a b t)) b a t' =
     resolveConversation s a b t"
proof (intro conjI)
  show "cId (snd (resolveConversation s a b t)) = cId (snd (resolveConversation s b a t'))"
    by (cases "findConversation s a b")
       (simp_all add: resolveConversation_def insertConversation_def Let_def
          findConversation_sym [of s b a])
  show "{user1Id (snd (resolveConversation s a b t)),
         user2Id (snd (resolveConversation s a b t))} = {a, b}"
    by (rule resolveConversation_users)
  show "case find (\<lambda>c. {user1Id c, user2Id c} = {a, b}) (conversations s) of
      Some c \<Rightarrow>
        c \<in> set (conversations s) \<and>
        resolveConversation s a b t = (s, c) \<and> resolveConversation s b a t' = (s, c)
    | None \<Rightarrow>
        resolveConversation s a b t =
          (s\<lparr>conversations :=
               conversations s @
               [\<lparr>cId = nextConversationId s, user1Id = a, user2Id = b, updatedAt = t\<rparr>],
             nextConversationId := Suc (nextConversationId s)\<rparr>,
           \<lparr>cId = nextConversationId s, user1Id = a, user2Id = b, updatedAt = t\<rparr>)"
  proof (cases "findConversation s a b")
    case None
    then show ?thesis
      by (simp add: find_pair resolveConversation_def insertConversation_def Let_def)
  next
    case (Some c)
    with findConversation_Some [OF Some] show ?thesis
      by (simp add: find_pair resolveConversation_def findConversation_sym [of s b a])
  qed
  have "findConversation (fst (resolveConversation s a b t)) b a =
          Some (snd (resolveConversation s a b t))"
    using findConversation_after_resolve [of s a b t] by (simp add: findConversation_sym)
  then show "resolveConversation (fst (resolveConversation s a b t)) b a t' =
     resolveConversation s a b t"
    by (simp add: resolveConversation_found)
qed

theorem resolve_unordered_pair_witness:
  "find (\<lambda>c. {user1Id c, user2Id c} = {2, 1}) (conversations store1) =
     Some \<lparr>cId = 1, user1Id = 1, user2Id = 2, updatedAt = 100\<rparr> \<and>
   resolveConversation store1 2 1 120 =
     (store1, \<lparr>cId = 1, user1Id = 1, user2Id = 2, updatedAt = 100\<rparr>) \<and>
   resolveConversation store1 1 2 130 =
     (store1, \<lparr>cId = 1, user1Id = 1, user2Id = 2, updatedAt = 100\<rparr>) \<and>
   find (\<lambda>c. {user1Id c, user2Id c} = {1, 3}) (conversations store1) = None \<and>
   resolveConversation store1 1 3 140 =
     (store1\<lparr>conversations :=
               [\<lparr>cId = 1, user1Id = 1, user2Id = 2, updatedAt = 100\<rparr>,
                \<lparr>cId = 2, user1Id = 1, user2Id = 3, updatedAt = 140\<rparr>],
             nextConversationId := 3\<rparr>,
      \<lparr>cId = 2, user1Id = 1, user2Id = 3, updatedAt = 140\<rparr>) \<and>
   resolveConversation (fst (resolveConversation store1 1 3 140)) 3 1 150 =
     resolveConversation store1 1 3 140"
proof -
  have f1: "find (\<lambda>c. {user1Id c, user2Id c} = {2, 1}) (conversations store1) =
     Some \<lparr>cId = 1, user1Id = 1, user2Id = 2, updatedAt = 100\<rparr>"
    by (simp add: store1_def doubleton_eq_iff)
  have f2: "find (\<lambda>c. {user1Id c, user2Id c} = {1, 3}) (conversations store1) = None"
    by (simp add: store1_def doubleton_eq_iff)
  have c: "conversations store1 = [\<lparr>cId = 1, user1Id = 1, user2Id = 2, updatedAt = 100\<rparr>]"
    "nextConversationId store1 = 2"
    by (simp_all add: store1_def)
  note found = resolve_unordered_pair [of store1 2 1 120 130, unfolded f1 option.case]
  have 1: "resolveConversation store1 2 1 120 =
     (store1, \<lparr>cId = 1, user1Id = 1, user2Id = 2, updatedAt = 100\<rparr>)"
    "resolveConversation store1 1 2 130 =
     (store1, \<lparr>cId = 1, user1Id = 1, user2Id = 2, updatedAt = 100\<rparr>)"
    using found by blast+
  note made = resolve_unordered_pair [of store1 1 3 140 150, unfolded f2 option.case]
  have "resolveConversation store1 1 3 140 =
     (store1\<lparr>conversations :=
               conversations store1 @
               [\<lparr>cId = nextConversationId store1, user1Id = 1, user2Id = 3, updatedAt = 140\<rparr>],
             nextConversationId := Suc (nextConversationId store1)\<rparr>,
      \<lparr>cId = nextConversationId store1, user1Id = 1, user2Id = 3, updatedAt = 140\<rparr>)"
    using made by blast
  then have 2: "resolveConversation store1 1 3 140 =
     (store1\<lparr>conversations :=
               [\<lparr>cId = 1, user1Id = 1, user2Id = 2, updatedAt = 100\<rparr>,
                \<lparr>cId = 2, user1Id = 1, user2Id = 3, updatedAt = 140\<rparr>],
             nextConversationId := 3\<rparr>,
      \<lparr>cId = 2, user1Id = 1, user2Id = 3, updatedAt = 140\<rparr>)"
    by (simp add: c)
  have 3: "resolveConversation (fst (resolveConversation store1 1 3 140)) 3 1 150 =
     resolveConversation store1 1 3 140"
    using made by blast
  from f1 f2 1 2 3 show ?thesis by (intro conjI)
qed

lemma createConversation_unordered_pair:
  assumes "createConversation s a b t = (s1, Ok p1)"
    and "createConversation s1 b a t' = (s2, Ok p2)"
  shows "pId p2 = pId p1 \<and> s2 = s1"
proof -
  let ?r = "resolveConversation s a b t"
  from assms(1) have 1: "s1 = fst ?r" "pId p1 = cId (snd ?r)"
    by (auto simp: createConversation_def split: if_splits option.splits prod.splits)
  have "findConversation s1 b a = Some (snd ?r)"
    using findConversation_after_resolve [of s a b t] 1(1)
    by (simp add: findConversation_sym)
  then have "resolveConversation s1 b a t' = (s1, snd ?r)"
    by (rule resolveConversation_found)
  with assms(2) 1(2) show ?thesis
    by (auto simp: createConversation_def split: if_splits option.splits)
qed

section \<open>Sending\<close>

lemma findUser_store0: "findUser store0 1 = Some user1" "findUser store0 2 = Some user2"
  "findUser store0 3 = None"
  by (simp_all add: findUser_def store0_def user1_def user2_def)

text \<open>
  C7: the send handler has no test of the content, where both edit handlers refuse
  a content that is empty after trimming. User 1 sends two spaces, which trim to
  the empty string, to the registered user 2. No error is emitted; a conversation
  and a message with that content are stored, and the message is echoed to the
  sender. The same content as an edit of the stored message is refused with
  \<open>Content is required\<close> by the socket handler and by the REST handler.
\<close>

theorem send_blank_content_persisted:
  "trim [0x20, 0x20] = [] \<and>
   snd (handleSendMessage store0 1 2 [0x20, 0x20] 100) =
     [(Socket 1, NewMessage (sanitizeMessage (message1\<lparr>content := [0x20, 0x20]\<rparr>)))] \<and>
   messages (fst (handleSendMessage store0 1 2 [0x20, 0x20] 100)) =
     [message1\<lparr>content := [0x20, 0x20], originalContent := Some [0x20, 0x20]\<rparr>] \<and>
   conversations (fst (handleSendMessage store0 1 2 [0x20, 0x20] 100)) =
     [\<lparr>cId = 1, user1Id = 1, user2Id = 2, updatedAt = 100\<rparr>] \<and>
   handleUpdateMessage store1 1 1 [0x20, 0x20] 120 =
     (store1, [(Socket 1, Error ''Content is required'')]) \<and>
   updateMessage store1 1 1 [0x20, 0x20] 120 = (store1, Fail 400 ''Content is required'')"
  by (simp add: trim_def isWhiteSpace_def handleSendMessage_def findUser_def
      resolveConversation_def findConversation_def insertConversation_def
      insertMessage_def saveConversation_def Let_def store0_def message1_def
      user1_def user2_def sanitizeMessage_def sanitized.defs
      handleUpdateMessage_def updateMessage_def)

text \<open>
  The two rejections the send handler makes: a send to oneself, and a send to a
  receiver who is not registered, are answered with one \<open>error\<close> event on the
  caller's connection, and the store is unchanged: no message and no conversation
  is created or touched.
\<close>

theorem send_rejects_self_and_unknown_receiver:
  assumes "sId = rId \<or> findUser s rId = None"
  shows "\<exists>msg. handleSendMessage s sId rId c now = (s, [(Socket sId, Error msg)])"
  using assms by (auto simp: handleSendMessage_def)

theorem send_rejects_self_and_unknown_receiver_witness:
  "((1::nat) = 3 \<or> findUser store0 3 = None) \<and>
   (\<exists>msg. handleSendMessage store0 1 3 [0x61] 100 = (store0, [(Socket 1, Error msg)])) \<and>
   ((1::nat) = 1 \<or> findUser store0 1 = None) \<and>
   (\<exists>msg. handleSendMessage store0 1 1 [0x61] 100 = (store0, [(Socket 1, Error msg)]))"
proof -
  have h1: "(1::nat) = 3 \<or> findUser store0 3 = None" by (simp add: findUser_store0)
  have h2: "(1::nat) = 1 \<or> findUser store0 1 = None" by simp
  show ?thesis
    using send_rejects_self_and_unknown_receiver [OF h1, where c = "[0x61]" and now = 100]
      send_rejects_self_and_unknown_receiver [OF h2, where c = "[0x61]" and now = 100] h1 h2
    by blast
qed

section \<open>Creating a conversation over REST\<close>

text \<open>
  C8: the REST endpoint has no test for \<open>userId = participantId\<close>. User 1 asks for a
  conversation with user 1: the answer is status 200 and a conversation of user 1
  with user 1 is stored. The real-time path refuses the same pair before it
  resolves a conversation, and stores nothing.
\<close>

theorem createConversation_with_self:
  "createConversation store0 1 1 100 =
     (store0\<lparr>conversations := [\<lparr>cId = 1, user1Id = 1, user2Id = 1, updatedAt = 100\<rparr>],
             nextConversationId := 2\<rparr>,
      Ok \<lparr>pId = 1, pParticipant = participant.truncate user1, pLastMessage = None,
          pUnreadCount = 0, pUpdatedAt = 100\<rparr>) \<and>
   handleSendMessage store0 1 1 [0x61] 100 =
     (store0, [(Socket 1, Error ''Cannot send message to yourself'')])"
  by (simp add: createConversation_def findUser_def resolveConversation_def
      findConversation_def insertConversation_def Let_def handleSendMessage_def
      store0_def user1_def user2_def)

section \<open>Read receipts\<close>

lemma findMessage_store1: "findMessage store1 1 = Some message1"
  by (simp add: findMessage_def store1_def message1_def)

text \<open>
  C3: user 1 has sent a message to user 2, who is offline (\<open>store1\<close>), so the message
  is not delivered. User 2 marks it as read over REST: it is stored read and not
  delivered. The same request over the socket stores it read and delivered.
\<close>

theorem rest_markAsRead_leaves_undelivered:
  "handleSendMessage store0 1 2 [0x61] 100 =
     (store1, [(Socket 1, NewMessage (sanitizeMessage message1))]) \<and>
   markAsRead store1 2 1 =
     (store1\<lparr>messages := [message1\<lparr>isRead := True\<rparr>]\<rparr>, Ok ''Message marked as read'') \<and>
   isRead (message1\<lparr>isRead := True\<rparr>) \<and> \<not> isDelivered (message1\<lparr>isRead := True\<rparr>) \<and>
   fst (handleMarkAsRead store1 2 1 None) =
     store1\<lparr>messages := [message1\<lparr>isRead := True, isDelivered := True\<rparr>]\<rparr>"
  using store1_reached
  by (simp add: markAsRead_def handleMarkAsRead_def findMessage_def
      saveMessage_def store1_def message1_def)

text \<open>
  C6: the single-message form has no test of \<open>isRead\<close>, where the conversation form
  of the same handler loads unread messages only. The receiver marks the same
  message twice, and the second run emits \<open>messageRead\<close> to the sender again; in
  the conversation form the second run emits nothing.
\<close>

theorem markAsRead_twice_emits_again:
  "snd (handleMarkAsRead store1 2 1 None) = [(Room 1, MessageRead 1 1)] \<and>
   snd (handleMarkAsRead (fst (handleMarkAsRead store1 2 1 None)) 2 1 None) =
     [(Room 1, MessageRead 1 1)] \<and>
   snd (handleMarkAsRead store1 2 1 (Some 1)) = [(Room 1, MessageRead 1 1)] \<and>
   snd (handleMarkAsRead (fst (handleMarkAsRead store1 2 1 (Some 1))) 2 1 (Some 1)) = []"
  by (simp add: handleMarkAsRead_def saveMessage_def findMessage_def store1_def
      message1_def Let_def)

lemma saveMessage_twice: "saveMessage (saveMessage s m) m = saveMessage s m"
  by (simp add: saveMessage_def comp_def)

lemma messages_saveMessage:
  "x \<in> set (messages (saveMessage s m)) \<Longrightarrow> x = m \<or> (x \<in> set (messages s) \<and> mId x \<noteq> mId m)"
  by (auto simp: saveMessage_def split: if_splits)

lemma fst_markMessagesRead_Cons:
  "fst (markMessagesRead s cid (m # rest)) =
   fst (markMessagesRead (saveMessage s (m\<lparr>isRead := True, isDelivered := True\<rparr>)) cid rest)"
  by (simp add: Let_def split: prod.splits)

lemma markMessagesRead_rows:
  "x \<in> set (messages (fst (markMessagesRead s cid L))) \<Longrightarrow>
   isRead x \<or> (x \<in> set (messages s) \<and> mId x \<notin> mId ` set L)"
proof (induction L arbitrary: s)
  case Nil
  then show ?case by simp
next
  case (Cons m rest)
  define m' where "m' = m\<lparr>isRead := True, isDelivered := True\<rparr>"
  have m': "isRead m'" "mId m' = mId m" by (simp_all add: m'_def)
  from Cons.prems have "x \<in> set (messages (fst (markMessagesRead (saveMessage s m') cid rest)))"
    by (simp only: fst_markMessagesRead_Cons m'_def)
  from Cons.IH [OF this] show ?case
  proof
    assume "isRead x" then show ?thesis ..
  next
    assume a: "x \<in> set (messages (saveMessage s m')) \<and> mId x \<notin> mId ` set rest"
    then have "x = m' \<or> (x \<in> set (messages s) \<and> mId x \<noteq> mId m')"
      using messages_saveMessage by blast
    then show ?thesis
    proof
      assume "x = m'" with m'(1) show ?thesis by simp
    next
      assume "x \<in> set (messages s) \<and> mId x \<noteq> mId m'"
      with a m'(2) show ?thesis by simp
    qed
  qed
qed

lemma markMessagesRead_none_left:
  assumes unread: "\<And>m. P m \<Longrightarrow> \<not> isRead m"
  shows "filter P (messages (fst (markMessagesRead s cid (filter P (messages s))))) = []"
proof -
  have "\<not> P x"
    if x: "x \<in> set (messages (fst (markMessagesRead s cid (filter P (messages s)))))" for x
  proof
    assume p: "P x"
    with unread have "\<not> isRead x" by blast
    with markMessagesRead_rows [OF x]
    have 1: "x \<in> set (messages s)" and 2: "mId x \<notin> mId ` set (filter P (messages s))"
      by blast+
    from p 1 have "x \<in> set (filter P (messages s))" by simp
    with 2 show False by blast
  qed
  then show ?thesis unfolding filter_empty_conv by blast
qed

lemma handleMarkAsRead_conversation_again:
  assumes "cv \<noteq> None" and "cv \<noteq> Some 0"
  shows "handleMarkAsRead (fst (handleMarkAsRead s u k cv)) u k cv =
         (fst (handleMarkAsRead s u k cv), [])"
proof -
  let ?P = "\<lambda>m. conversationId m = the cv \<and> receiverId m = u \<and> \<not> isRead m"
  have "filter ?P (messages (fst (markMessagesRead s (the cv) (filter ?P (messages s))))) = []"
    by (rule markMessagesRead_none_left) simp
  with assms show ?thesis by (simp add: handleMarkAsRead_def)
qed

lemma handleMarkAsRead_single_again:
  "fst (handleMarkAsRead (fst (handleMarkAsRead s u k None)) u k None) =
   fst (handleMarkAsRead s u k None)"
proof (cases "findMessage s k")
  case None
  then show ?thesis by (simp add: handleMarkAsRead_def)
next
  case (Some m)
  let ?m' = "m\<lparr>isRead := True, isDelivered := True\<rparr>"
  show ?thesis
  proof (cases "receiverId m = u")
    case False
    with Some show ?thesis by (simp add: handleMarkAsRead_def)
  next
    case True
    have 1: "handleMarkAsRead s u k None =
               (saveMessage s ?m', [(Room (senderId m), MessageRead (mId m) (conversationId m))])"
      using Some True by (simp add: handleMarkAsRead_def Let_def)
    have 2: "findMessage (saveMessage s ?m') k = Some ?m'"
      using Some findMessage_mId [OF Some] by (intro findMessage_saveMessage) simp_all
    have 3: "?m'\<lparr>isRead := True, isDelivered := True\<rparr> = ?m'" by simp
    show ?thesis
      using True by (simp add: 1) (simp add: handleMarkAsRead_def 2 Let_def saveMessage_twice)
  qed
qed

text \<open>
  What does hold of a repeated \<open>markAsRead\<close>: running it twice in a row leaves the
  store that one run leaves, in both forms. In the conversation form (a conversation id other than 0 is
  given) the second run emits nothing. In the single-message form a message that
  does not exist, or whose receiver is not the caller, leaves the store unchanged and
  emits nothing.
\<close>

theorem markAsRead_idempotent_store:
  "fst (handleMarkAsRead (fst (handleMarkAsRead s u k cv)) u k cv) =
     fst (handleMarkAsRead s u k cv) \<and>
   (cv \<noteq> None \<and> cv \<noteq> Some 0 \<longrightarrow>
      snd (handleMarkAsRead (fst (handleMarkAsRead s u k cv)) u k cv) = []) \<and>
   (findMessage s k = None \<or> (\<exists>m. findMessage s k = Some m \<and> receiverId m \<noteq> u) \<longrightarrow>
      handleMarkAsRead s u k None = (s, []) \<and> handleMarkAsRead s u k (Some 0) = (s, []))"
proof (intro conjI impI)
  show "fst (handleMarkAsRead (fst (handleMarkAsRead s u k cv)) u k cv) =
     fst (handleMarkAsRead s u k cv)"
  proof (cases "cv \<noteq> None \<and> cv \<noteq> Some 0")
    case True
    then show ?thesis by (simp add: handleMarkAsRead_conversation_again)
  next
    case False
    then have "handleMarkAsRead t u k cv = handleMarkAsRead t u k None" for t
      by (auto simp: handleMarkAsRead_def)
    then show ?thesis by (simp add: handleMarkAsRead_single_again)
  qed
next
  assume "cv \<noteq> None \<and> cv \<noteq> Some 0"
  then show "snd (handleMarkAsRead (fst (handleMarkAsRead s u k cv)) u k cv) = []"
    by (simp add: handleMarkAsRead_conversation_again)
next
  assume "findMessage s k = None \<or> (\<exists>m. findMessage s k = Some m \<and> receiverId m \<noteq> u)"
  then show "handleMarkAsRead s u k None = (s, [])"
    and "handleMarkAsRead s u k (Some 0) = (s, [])"
    by (auto simp: handleMarkAsRead_def)
qed

theorem markAsRead_idempotent_store_witness:
  "fst (handleMarkAsRead (fst (handleMarkAsRead store1 2 1 (Some 1))) 2 1 (Some 1)) =
     fst (handleMarkAsRead store1 2 1 (Some 1)) \<and>
   (Some (1::nat) \<noteq> None \<and> Some (1::nat) \<noteq> Some 0) \<and>
   snd (handleMarkAsRead store1 2 1 (Some 1)) = [(Room 1, MessageRead 1 1)] \<and>
   snd (handleMarkAsRead (fst (handleMarkAsRead store1 2 1 (Some 1))) 2 1 (Some 1)) = [] \<and>
   (findMessage store1 1 = None \<or> (\<exists>m. findMessage store1 1 = Some m \<and> receiverId m \<noteq> 1)) \<and>
   handleMarkAsRead store1 1 1 None = (store1, [])"
proof -
  have h1: "Some (1::nat) \<noteq> None \<and> Some (1::nat) \<noteq> Some 0" by simp
  have h2: "findMessage store1 1 = None \<or>
            (\<exists>m. findMessage store1 1 = Some m \<and> receiverId m \<noteq> 1)"
    using findMessage_store1 by (simp add: message1_def)
  have e: "snd (handleMarkAsRead store1 2 1 (Some 1)) = [(Room 1, MessageRead 1 1)]"
    by (simp add: handleMarkAsRead_def store1_def message1_def Let_def)
  show ?thesis
    using markAsRead_idempotent_store [of store1 2 1 "Some 1"]
      markAsRead_idempotent_store [of store1 1 1 None] h1 h2 e
    by blast
qed

section \<open>Routing\<close>

lemma routingKey_simps [simp]:
  "fst (routingKey m) = mId m"
  "routingKey m = routingKey m' \<longleftrightarrow>
     mId m = mId m' \<and> senderId m = senderId m' \<and> receiverId m = receiverId m'"
  by (auto simp: routingKey_def)

lemma find_by_keys:
  "map routingKey xs = map routingKey ys \<Longrightarrow>
   map_option routingKey (find (\<lambda>m. mId m = k) xs) =
   map_option routingKey (find (\<lambda>m. mId m = k) ys)"
proof (induction xs arbitrary: ys)
  case Nil
  then show ?case by simp
next
  case (Cons x xs)
  then obtain y ys' where ys: "ys = y # ys'" by (cases ys) auto
  with Cons.prems have k: "routingKey x = routingKey y"
    and r: "map routingKey xs = map routingKey ys'" by simp_all
  from k have "mId x = mId y" by simp
  with Cons.IH [OF r] k show ?case by (simp add: ys)
qed

lemma partyOfMessage_keys:
  assumes "map routingKey (messages s') = map routingKey (messages s)"
  shows "partyOfMessage s' k ch = partyOfMessage s k ch"
proof -
  from find_by_keys [OF assms, of k]
  have "map_option routingKey (findMessage s' k) = map_option routingKey (findMessage s k)"
    by (simp add: findMessage_def)
  then show ?thesis
    by (cases "findMessage s' k"; cases "findMessage s k") (auto simp: partyOfMessage_def)
qed

lemma keys_saveMessage:
  assumes d: "distinct (map mId (messages s))"
    and m: "routingKey m \<in> routingKey ` set (messages s)"
    and m': "routingKey m' = routingKey m"
  shows "map routingKey (messages (saveMessage s m')) = map routingKey (messages s)"
proof -
  have "routingKey (if mId x = mId m' then m' else x) = routingKey x"
    if x: "x \<in> set (messages s)" for x
  proof (cases "mId x = mId m'")
    case False
    then show ?thesis by simp
  next
    case True
    from m obtain y where y: "y \<in> set (messages s)" "routingKey y = routingKey m" by auto
    with True m' have "mId x = mId y" by simp
    with d x y(1) have "x = y" by (simp add: distinct_map inj_on_def)
    with y(2) m' True show ?thesis by simp
  qed
  then show ?thesis by (simp add: saveMessage_def)
qed

lemma messageKeysOk_keys:
  assumes "messageKeysOk s"
    and "map routingKey (messages s') = map routingKey (messages s)"
    and "nextMessageId s' = nextMessageId s"
  shows "messageKeysOk s'"
proof -
  have "map mId (messages s') = map mId (messages s)"
    using arg_cong [OF assms(2), of "map fst"] by (simp add: comp_def)
  moreover have "list_all (\<lambda>m. mId m < n) xs \<longleftrightarrow> list_all (\<lambda>k. k < n) (map mId xs)"
    for xs :: "message list" and n
    by (simp add: list.pred_map comp_def)
  ultimately show ?thesis using assms(1,3) by (simp add: messageKeysOk_def)
qed

lemma sanitizeMessage_simps [simp]:
  "mId (sanitizeMessage m) = mId m"
  "senderId (sanitizeMessage m) = senderId m"
  "receiverId (sanitizeMessage m) = receiverId m"
  by (simp_all add: sanitizeMessage_def sanitized.defs)

lemma partyOfMessage_found:
  "findMessage s k = Some m \<Longrightarrow>
   partyOfMessage s k ch \<longleftrightarrow> ch \<in> channelsOf (senderId m) \<union> channelsOf (receiverId m)"
  by (simp add: partyOfMessage_def)

lemma findMessage_unique:
  assumes "distinct (map mId (messages s))" and "m \<in> set (messages s)"
  shows "findMessage s (mId m) = Some m"
proof -
  from assms(2) have "find (\<lambda>x. mId x = mId m) (messages s) \<noteq> None"
    by (auto simp: find_None_iff)
  then obtain y where y: "findMessage s (mId m) = Some y" by (auto simp: findMessage_def)
  then have "y \<in> set (messages s)" "mId y = mId m"
    by (simp_all add: findMessage_mem findMessage_mId)
  with assms have "y = m" by (simp add: distinct_map inj_on_def)
  with y show ?thesis by simp
qed

lemma keys_after_save:
  assumes "messageKeysOk s" and "findMessage s k = Some m" and "routingKey m' = routingKey m"
  shows "map routingKey (messages (saveMessage s m')) = map routingKey (messages s)"
  using assms(1) findMessage_mem [OF assms(2)] assms(3)
  by (intro keys_saveMessage [where m = m]) (simp_all add: messageKeysOk_def)

lemma nextMessageId_saveMessage [simp]: "nextMessageId (saveMessage s m) = nextMessageId s"
  by (simp add: saveMessage_def)

text \<open>Edit and delete: the two emissions go to the sender and to the receiver.\<close>

lemma saved_emissions_toParty:
  assumes ok: "messageKeysOk s" and f: "findMessage s k = Some m"
    and key: "routingKey m' = routingKey m"
    and ch: "ch \<in> channelsOf (senderId m) \<union> channelsOf (receiverId m)"
  shows "partyOfMessage (saveMessage s m') k ch"
    and "ch \<in> channelsOf (senderId (sanitizeMessage m')) \<union> channelsOf (receiverId (sanitizeMessage m'))"
    and "mId (sanitizeMessage m') = k"
proof -
  show "partyOfMessage (saveMessage s m') k ch"
    using partyOfMessage_keys [OF keys_after_save [OF ok f key], of k ch] ch
    by (simp add: partyOfMessage_found [OF f])
  from key ch show "ch \<in> channelsOf (senderId (sanitizeMessage m')) \<union>
      channelsOf (receiverId (sanitizeMessage m'))" by simp
  from key findMessage_mId [OF f] show "mId (sanitizeMessage m') = k" by simp
qed

lemma routingKey_editMessage [simp]: "routingKey (editMessage m c now) = routingKey m"
  by (simp add: routingKey_def editMessage_def)

lemma routingKey_softDelete [simp]: "routingKey (softDelete m now) = routingKey m"
  by (simp add: routingKey_def softDelete_def)

lemma routingKey_flags [simp]:
  "routingKey (m\<lparr>isRead := a, isDelivered := b\<rparr>) = routingKey m"
  "routingKey (m\<lparr>isDelivered := b\<rparr>) = routingKey m"
  "routingKey (m\<lparr>isRead := a\<rparr>) = routingKey m"
  by (simp_all add: routingKey_def)

lemma handleUpdateMessage_cases:
  "(\<exists>msg. handleUpdateMessage s u k c now = (s, [(Socket u, Error msg)])) \<or>
   (\<exists>m. findMessage s k = Some m \<and> senderId m = u \<and>
        handleUpdateMessage s u k c now =
          (saveMessage s (editMessage m c now),
           [(Socket u, MessageUpdated (sanitizeMessage (editMessage m c now))),
            (Room (receiverId m), MessageUpdated (sanitizeMessage (editMessage m c now)))]))"
  by (cases "findMessage s k")
     (simp_all add: handleUpdateMessage_def Let_def editMessage_simps)

lemma handleDeleteMessage_cases:
  "(\<exists>msg. handleDeleteMessage s u k now = (s, [(Socket u, Error msg)])) \<or>
   (\<exists>m. findMessage s k = Some m \<and> senderId m = u \<and>
        handleDeleteMessage s u k now =
          (saveMessage s (softDelete m now),
           [(Socket u, MessageDeleted (sanitizeMessage (softDelete m now))),
            (Room (receiverId m), MessageDeleted (sanitizeMessage (softDelete m now)))]))"
  by (cases "findMessage s k")
     (simp_all add: handleDeleteMessage_def Let_def softDelete_simps)

lemma channelsOf_simps [simp]: "Socket u \<in> channelsOf u" "Room u \<in> channelsOf u"
  "Broadcast \<notin> channelsOf u"
  by (simp_all add: channelsOf_def)

lemma update_toParty:
  assumes "messageKeysOk s" and "e \<in> set (snd (handleUpdateMessage s u k c now))"
  shows "toParty (fst (handleUpdateMessage s u k c now)) e"
proof -
  consider (refused) msg where "handleUpdateMessage s u k c now = (s, [(Socket u, Error msg)])"
    | (saved) m where "findMessage s k = Some m" and "senderId m = u"
      and "handleUpdateMessage s u k c now =
          (saveMessage s (editMessage m c now),
           [(Socket u, MessageUpdated (sanitizeMessage (editMessage m c now))),
            (Room (receiverId m), MessageUpdated (sanitizeMessage (editMessage m c now)))])"
    using handleUpdateMessage_cases [of s u k c now] by blast
  then show ?thesis
  proof cases
  case (refused msg)
  with assms(2) show ?thesis by simp
next
  case (saved m)
  note p = saved_emissions_toParty [OF assms(1) saved(1), of "editMessage m c now"]
  from assms(2) saved(3) have "e = (Socket u, MessageUpdated (sanitizeMessage (editMessage m c now)))
    \<or> e = (Room (receiverId m), MessageUpdated (sanitizeMessage (editMessage m c now)))"
    by simp
  then show ?thesis
  proof
    assume "e = (Socket u, MessageUpdated (sanitizeMessage (editMessage m c now)))"
    with p [of "Socket u"] saved(2,3) show ?thesis by simp
  next
    assume "e = (Room (receiverId m), MessageUpdated (sanitizeMessage (editMessage m c now)))"
    with p [of "Room (receiverId m)"] saved(3) show ?thesis by simp
  qed
  qed
qed

lemma delete_toParty:
  assumes "messageKeysOk s" and "e \<in> set (snd (handleDeleteMessage s u k now))"
  shows "toParty (fst (handleDeleteMessage s u k now)) e"
proof -
  consider (refused) msg where "handleDeleteMessage s u k now = (s, [(Socket u, Error msg)])"
    | (saved) m where "findMessage s k = Some m" and "senderId m = u"
      and "handleDeleteMessage s u k now =
          (saveMessage s (softDelete m now),
           [(Socket u, MessageDeleted (sanitizeMessage (softDelete m now))),
            (Room (receiverId m), MessageDeleted (sanitizeMessage (softDelete m now)))])"
    using handleDeleteMessage_cases [of s u k now] by blast
  then show ?thesis
  proof cases
  case (refused msg)
  with assms(2) show ?thesis by simp
next
  case (saved m)
  note p = saved_emissions_toParty [OF assms(1) saved(1), of "softDelete m now"]
  from assms(2) saved(3) have "e = (Socket u, MessageDeleted (sanitizeMessage (softDelete m now)))
    \<or> e = (Room (receiverId m), MessageDeleted (sanitizeMessage (softDelete m now)))"
    by simp
  then show ?thesis
  proof
    assume "e = (Socket u, MessageDeleted (sanitizeMessage (softDelete m now)))"
    with p [of "Socket u"] saved(2,3) show ?thesis by simp
  next
    assume "e = (Room (receiverId m), MessageDeleted (sanitizeMessage (softDelete m now)))"
    with p [of "Room (receiverId m)"] saved(3) show ?thesis by simp
  qed
  qed
qed

lemma typing_toParty:
  assumes "e \<in> set (snd (handleTyping s u k))"
  shows "toParty (fst (handleTyping s u k)) e"
  using assms
  by (cases "findConversationById s k")
     (auto simp: handleTyping_def partyOfConversation_def Let_def split: if_splits)

lemma resolveConversation_frame [simp]:
  "messages (fst (resolveConversation s a b now)) = messages s"
  "nextMessageId (fst (resolveConversation s a b now)) = nextMessageId s"
  "userSockets (fst (resolveConversation s a b now)) = userSockets s"
  "users (fst (resolveConversation s a b now)) = users s"
  by (cases "findConversation s a b";
      simp add: resolveConversation_def insertConversation_def Let_def)+

lemma saveConversation_frame [simp]:
  "messages (saveConversation s c) = messages s"
  "nextMessageId (saveConversation s c) = nextMessageId s"
  "userSockets (saveConversation s c) = userSockets s"
  "users (saveConversation s c) = users s"
  "nextConversationId (saveConversation s c) = nextConversationId s"
  by (simp_all add: saveConversation_def)

lemma resolveConversation_participant:
  "user1Id (snd (resolveConversation s a b now)) = a \<or>
   user2Id (snd (resolveConversation s a b now)) = a"
proof (cases "findConversation s a b")
  case None
  then show ?thesis by (simp add: resolveConversation_def insertConversation_def Let_def)
next
  case (Some c)
  with findConversation_Some [OF Some] show ?thesis
    by (auto simp: resolveConversation_def)
qed

lemma replace_fresh:
  assumes "list_all (\<lambda>x. mId x < k) xs" and "mId m = k"
  shows "map (\<lambda>x. if mId x = k then m' else x) (xs @ [m]) = xs @ [m']"
proof -
  have "map (\<lambda>x. if mId x = k then m' else x) xs = xs"
    using assms(1) by (induction xs) auto
  with assms(2) show ?thesis by simp
qed

lemma handleSendMessage_accepted:
  fixes now :: date and c :: jsstring
  assumes ok: "messageKeysOk s" and ne: "sId \<noteq> rId" and r: "findUser s rId = Some r"
  defines "conv \<equiv> snd (resolveConversation s sId rId now)"
  defines "m \<equiv> \<lparr>mId = nextMessageId s, content = c, senderId = sId, receiverId = rId,
                conversationId = cId conv, isRead = False, isDelivered = False,
                isDeleted = False, deletedAt = None, isEdited = False, editedAt = None,
                createdAt = now, originalContent = Some c, editHistory = Some []\<rparr>"
  shows "messages (fst (handleSendMessage s sId rId c now)) =
           messages s @ [m\<lparr>isDelivered := userSockets s rId \<noteq> None\<rparr>]"
    and "nextMessageId (fst (handleSendMessage s sId rId c now)) = Suc (nextMessageId s)"
    and "snd (handleSendMessage s sId rId c now) =
           (Socket sId, NewMessage (sanitizeMessage m)) #
           (if userSockets s rId = None then []
            else [(Room rId, NewMessage (sanitizeMessage (m\<lparr>isDelivered := True\<rparr>))),
                  (Socket sId, MessageDelivered (nextMessageId s) (cId conv))])"
proof -
  obtain s1 where s1: "resolveConversation s sId rId now = (s1, conv)"
    by (cases "resolveConversation s sId rId now") (simp add: conv_def)
  then have f: "messages s1 = messages s" "nextMessageId s1 = nextMessageId s"
    "userSockets s1 = userSockets s"
    using resolveConversation_frame [of s sId rId now] by simp_all
  have p: "\<not> (user1Id conv \<noteq> sId \<and> user2Id conv \<noteq> sId)"
    using resolveConversation_participant [of s sId rId now] by (auto simp: conv_def)
  have i: "insertMessage s1 c sId rId (cId conv) now =
             (s1\<lparr>messages := messages s @ [m], nextMessageId := Suc (nextMessageId s)\<rparr>, m)"
    by (simp add: insertMessage_def Let_def f m_def)
  from ok have lt: "list_all (\<lambda>x. mId x < nextMessageId s) (messages s)"
    by (simp add: messageKeysOk_def)
  have mid: "mId m = nextMessageId s" by (simp add: m_def)
  have rep: "map (\<lambda>x. if mId x = nextMessageId s then m\<lparr>isDelivered := True\<rparr> else x)
               (messages s @ [m]) = messages s @ [m\<lparr>isDelivered := True\<rparr>]"
    by (rule replace_fresh [OF lt mid])
  show "messages (fst (handleSendMessage s sId rId c now)) =
           messages s @ [m\<lparr>isDelivered := userSockets s rId \<noteq> None\<rparr>]"
  proof (cases "userSockets s rId")
    case None
    with ne r s1 p i f show ?thesis
      by (simp add: handleSendMessage_def Let_def) (simp add: m_def)
  next
    case (Some a)
    with ne r s1 p i f rep mid show ?thesis
      by (simp add: handleSendMessage_def Let_def saveMessage_def)
  qed
  show "nextMessageId (fst (handleSendMessage s sId rId c now)) = Suc (nextMessageId s)"
    using ne r s1 p i f
    by (cases "userSockets s rId") (simp_all add: handleSendMessage_def Let_def)
  show "snd (handleSendMessage s sId rId c now) =
           (Socket sId, NewMessage (sanitizeMessage m)) #
           (if userSockets s rId = None then []
            else [(Room rId, NewMessage (sanitizeMessage (m\<lparr>isDelivered := True\<rparr>))),
                  (Socket sId, MessageDelivered (nextMessageId s) (cId conv))])"
    using ne r s1 p i f mid
    by (cases "userSockets s rId") (simp_all add: handleSendMessage_def Let_def)
qed

lemma find_fresh:
  assumes "list_all (\<lambda>x. mId x < k) xs" and "mId m = k"
  shows "find (\<lambda>x. mId x = k) (xs @ [m]) = Some m"
  using assms by (induction xs) auto

lemma handleSendMessage_refused:
  assumes "sId = rId \<or> findUser s rId = None"
  shows "\<exists>msg. handleSendMessage s sId rId c now = (s, [(Socket sId, Error msg)])"
  using assms by (auto simp: handleSendMessage_def)

lemma send_toParty:
  assumes ok: "messageKeysOk s" and e: "e \<in> set (snd (handleSendMessage s sId rId c now))"
  shows "toParty (fst (handleSendMessage s sId rId c now)) e"
proof (cases "sId = rId \<or> findUser s rId = None")
  case True
  from handleSendMessage_refused [OF True, of c now] e show ?thesis by auto
next
  case False
  then obtain r where ne: "sId \<noteq> rId" and r: "findUser s rId = Some r" by auto
  let ?h = "handleSendMessage s sId rId c now"
  note acc = handleSendMessage_accepted [OF ok ne r, of c now]
  define m where "m = last (messages (fst ?h))"
  have ms: "messages (fst ?h) = messages s @ [m]"
    and m: "mId m = nextMessageId s" "senderId m = sId" "receiverId m = rId"
    by (simp_all add: m_def acc(1))
  from ok have lt: "list_all (\<lambda>x. mId x < nextMessageId s) (messages s)"
    by (simp add: messageKeysOk_def)
  have f: "findMessage (fst ?h) (nextMessageId s) = Some m"
    using find_fresh [OF lt m(1)] by (simp add: findMessage_def ms)
  have p: "partyOfMessage (fst ?h) (nextMessageId s) ch \<longleftrightarrow>
           ch \<in> channelsOf sId \<union> channelsOf rId" for ch
    by (simp add: partyOfMessage_found [OF f] m)
  from e show ?thesis
    by (auto simp: acc(3) p split: if_splits)
qed

lemma handleSendMessage_keys:
  assumes ok: "messageKeysOk s"
  shows "messageKeysOk (fst (handleSendMessage s sId rId c now))"
proof (cases "sId = rId \<or> findUser s rId = None")
  case True
  from handleSendMessage_refused [OF True, of c now] ok show ?thesis by auto
next
  case False
  then obtain r where ne: "sId \<noteq> rId" and r: "findUser s rId = Some r" by auto
  note acc = handleSendMessage_accepted [OF ok ne r, of c now]
  have "list_all (\<lambda>x. mId x < n) xs \<Longrightarrow>
        n \<notin> mId ` set xs \<and> list_all (\<lambda>x. mId x < Suc n) xs" for xs :: "message list" and n
    by (induction xs) auto
  with ok show ?thesis
    by (simp add: messageKeysOk_def acc(1,2))
qed

lemma ids_of_keys:
  assumes "map routingKey xs = map routingKey ys"
  shows "map mId xs = map mId ys"
  using arg_cong [OF assms, of "map fst"] by (simp add: comp_def)

text \<open>The loops of \<open>markAsRead\<close> and of the delivery sweep keep every routing key.\<close>

lemma markMessagesRead_keys:
  assumes "distinct (map mId (messages s))"
    and "routingKey ` set L \<subseteq> routingKey ` set (messages s)"
  shows "map routingKey (messages (fst (markMessagesRead s cid L))) =
         map routingKey (messages s)"
  using assms
proof (induction L arbitrary: s)
  case Nil
  then show ?case by simp
next
  case (Cons m rest)
  define m' where "m' = m\<lparr>isRead := True, isDelivered := True\<rparr>"
  have k: "routingKey m' = routingKey m" by (simp add: m'_def)
  from Cons.prems(2) have mem: "routingKey m \<in> routingKey ` set (messages s)" by simp
  have eq: "map routingKey (messages (saveMessage s m')) = map routingKey (messages s)"
    by (rule keys_saveMessage [OF Cons.prems(1) mem k])
  have ids: "map mId (messages (saveMessage s m')) = map mId (messages s)"
    by (rule ids_of_keys [OF eq])
  have "set (map routingKey (messages (saveMessage s m'))) = set (map routingKey (messages s))"
    by (simp only: eq)
  then have sub: "routingKey ` set rest \<subseteq> routingKey ` set (messages (saveMessage s m'))"
    using Cons.prems(2) by auto
  have "map routingKey (messages (fst (markMessagesRead (saveMessage s m') cid rest))) =
        map routingKey (messages (saveMessage s m'))"
    using Cons.prems(1) by (intro Cons.IH sub) (simp add: ids)
  then show ?case by (simp only: fst_markMessagesRead_Cons m'_def [symmetric] eq)
qed

lemma snd_markMessagesRead_Cons:
  "snd (markMessagesRead s cid (m # rest)) =
   (Room (senderId m), MessageRead (mId m) cid) #
   snd (markMessagesRead (saveMessage s (m\<lparr>isRead := True, isDelivered := True\<rparr>)) cid rest)"
  by (simp add: Let_def split: prod.splits)

lemma markMessagesRead_emissions:
  "e \<in> set (snd (markMessagesRead s cid L)) \<Longrightarrow>
   \<exists>m \<in> set L. e = (Room (senderId m), MessageRead (mId m) cid)"
proof (induction L arbitrary: s)
  case Nil
  then show ?case by simp
next
  case (Cons m rest)
  from Cons.prems have "e = (Room (senderId m), MessageRead (mId m) cid) \<or>
    e \<in> set (snd (markMessagesRead (saveMessage s (m\<lparr>isRead := True, isDelivered := True\<rparr>))
                   cid rest))"
    by (simp only: snd_markMessagesRead_Cons set_ConsD set_simps insert_iff)
  with Cons.IH show ?case by auto
qed

lemma nextMessageId_markMessagesRead [simp]:
  "nextMessageId (fst (markMessagesRead s cid L)) = nextMessageId s"
proof (induction L arbitrary: s)
  case Nil
  show ?case by simp
next
  case (Cons m rest)
  show ?case unfolding fst_markMessagesRead_Cons by (simp add: Cons.IH)
qed

lemma handleMarkAsRead_keys:
  assumes ok: "messageKeysOk s"
  shows "map routingKey (messages (fst (handleMarkAsRead s u k cv))) =
         map routingKey (messages s)"
    and "nextMessageId (fst (handleMarkAsRead s u k cv)) = nextMessageId s"
proof -
  let ?L = "filter (\<lambda>m. conversationId m = the cv \<and> receiverId m = u \<and> \<not> isRead m) (messages s)"
  from ok have d: "distinct (map mId (messages s))" by (simp add: messageKeysOk_def)
  have conv: "map routingKey (messages (fst (markMessagesRead s (the cv) ?L))) =
        map routingKey (messages s)"
    by (rule markMessagesRead_keys [OF d]) auto
  have single: "map routingKey (messages (saveMessage s (m\<lparr>isRead := True, isDelivered := True\<rparr>)))
      = map routingKey (messages s)" if "findMessage s k = Some m" for m
    by (rule keys_after_save [OF ok that]) simp
  show "map routingKey (messages (fst (handleMarkAsRead s u k cv))) =
         map routingKey (messages s)"
    using conv single
    by (cases "findMessage s k") (simp_all add: handleMarkAsRead_def Let_def)
  show "nextMessageId (fst (handleMarkAsRead s u k cv)) = nextMessageId s"
    by (cases "findMessage s k") (simp_all add: handleMarkAsRead_def Let_def)
qed

lemma markAsRead_toParty:
  assumes ok: "messageKeysOk s" and e: "e \<in> set (snd (handleMarkAsRead s u k cv))"
  shows "toParty (fst (handleMarkAsRead s u k cv)) e"
proof -
  from ok have d: "distinct (map mId (messages s))" by (simp add: messageKeysOk_def)
  have "\<exists>m \<in> set (messages s). \<exists>c. e = (Room (senderId m), MessageRead (mId m) c)"
  proof (cases "cv \<noteq> None \<and> cv \<noteq> Some 0")
    case True
    with e markMessagesRead_emissions [of e s "the cv"] show ?thesis
      by (fastforce simp: handleMarkAsRead_def)
  next
    case False
    with e show ?thesis
      by (cases "findMessage s k")
         (auto simp: handleMarkAsRead_def Let_def findMessage_mem split: if_splits)
  qed
  then obtain m c where m: "m \<in> set (messages s)"
    and e': "e = (Room (senderId m), MessageRead (mId m) c)" by blast
  have "partyOfMessage s (mId m) (Room (senderId m))"
    by (simp add: partyOfMessage_found [OF findMessage_unique [OF d m]])
  then show ?thesis
    by (simp add: e' partyOfMessage_keys [OF handleMarkAsRead_keys(1) [OF ok]])
qed

lemma fst_markDelivered_Cons:
  "fst (markDelivered s (m # rest)) =
   fst (markDelivered (saveMessage s (m\<lparr>isDelivered := True\<rparr>)) rest)"
  by (simp add: Let_def split: prod.splits)

lemma markDelivered_keys:
  assumes "distinct (map mId (messages s))"
    and "routingKey ` set L \<subseteq> routingKey ` set (messages s)"
  shows "map routingKey (messages (fst (markDelivered s L))) = map routingKey (messages s)"
  using assms
proof (induction L arbitrary: s)
  case Nil
  then show ?case by simp
next
  case (Cons m rest)
  define m' where "m' = m\<lparr>isDelivered := True\<rparr>"
  have k: "routingKey m' = routingKey m" by (simp add: m'_def)
  from Cons.prems(2) have mem: "routingKey m \<in> routingKey ` set (messages s)" by simp
  have eq: "map routingKey (messages (saveMessage s m')) = map routingKey (messages s)"
    by (rule keys_saveMessage [OF Cons.prems(1) mem k])
  have ids: "map mId (messages (saveMessage s m')) = map mId (messages s)"
    by (rule ids_of_keys [OF eq])
  have "set (map routingKey (messages (saveMessage s m'))) = set (map routingKey (messages s))"
    by (simp only: eq)
  then have sub: "routingKey ` set rest \<subseteq> routingKey ` set (messages (saveMessage s m'))"
    using Cons.prems(2) by auto
  have "map routingKey (messages (fst (markDelivered (saveMessage s m') rest))) =
        map routingKey (messages (saveMessage s m'))"
    using Cons.prems(1) by (intro Cons.IH sub) (simp add: ids)
  then show ?case by (simp only: fst_markDelivered_Cons m'_def [symmetric] eq)
qed

lemma nextMessageId_markDelivered [simp]:
  "nextMessageId (fst (markDelivered s L)) = nextMessageId s"
proof (induction L arbitrary: s)
  case Nil
  show ?case by simp
next
  case (Cons m rest)
  show ?case unfolding fst_markDelivered_Cons by (simp add: Cons.IH)
qed

lemma updateUserStatus_frame [simp]:
  "messages (updateUserStatus s u st seen) = messages s"
  "nextMessageId (updateUserStatus s u st seen) = nextMessageId s"
  by (cases "findUser s u"; simp add: updateUserStatus_def saveUser_def)+

lemma handleConnection_keys:
  assumes ok: "messageKeysOk s"
  shows "messageKeysOk (fst (handleConnection s u sock now))"
proof (cases "u = 0")
  case True
  with ok show ?thesis by (simp add: handleConnection_def)
next
  case False
  define s2 where "s2 = updateUserStatus (s\<lparr>userSockets := (userSockets s)(u \<mapsto> sock)\<rparr>) u ''online'' now"
  have f: "messages s2 = messages s" "nextMessageId s2 = nextMessageId s"
    by (simp_all add: s2_def)
  with ok have ok2: "messageKeysOk s2" by (simp add: messageKeysOk_def)
  then have d: "distinct (map mId (messages s2))" by (simp add: messageKeysOk_def)
  let ?s3 = "fst (markPendingMessagesAsDelivered s2 u)"
  have "map routingKey (messages ?s3) = map routingKey (messages s2)"
    unfolding markPendingMessagesAsDelivered_def
    by (rule markDelivered_keys [OF d]) auto
  moreover have "nextMessageId ?s3 = nextMessageId s2"
    by (simp add: markPendingMessagesAsDelivered_def)
  ultimately have "messageKeysOk ?s3" by (rule messageKeysOk_keys [OF ok2])
  moreover have "fst (handleConnection s u sock now) = ?s3"
    using False by (simp add: handleConnection_def Let_def s2_def split: prod.splits)
  ultimately show ?thesis by simp
qed

lemma handleDisconnect_keys:
  assumes ok: "messageKeysOk s"
  shows "messageKeysOk (fst (handleDisconnect s u now))"
  using ok by (simp add: handleDisconnect_def Let_def messageKeysOk_def)

lemma save_found_keys:
  assumes ok: "messageKeysOk s" and f: "findMessage s k = Some m"
    and key: "routingKey m' = routingKey m"
  shows "messageKeysOk (saveMessage s m')"
  by (rule messageKeysOk_keys [OF ok keys_after_save [OF ok f key]]) simp

lemma save_found_keys_simps:
  assumes "messageKeysOk s" and "findMessage s k = Some m"
  shows "messageKeysOk (saveMessage s (editMessage m c now))"
    and "messageKeysOk (saveMessage s (softDelete m now))"
    and "messageKeysOk (saveMessage s (m\<lparr>isRead := True\<rparr>))"
  by (rule save_found_keys [OF assms], simp)+

lemma handleEvent_keys:
  assumes ok: "messageKeysOk s"
  shows "messageKeysOk (fst (handleEvent s u ev now))"
proof (cases ev)
  case (SendMessage rId c)
  with handleSendMessage_keys [OF ok] show ?thesis by simp
next
  case (MarkAsRead k cv)
  with messageKeysOk_keys [OF ok handleMarkAsRead_keys [OF ok]] show ?thesis by simp
next
  case (TypingIn k)
  with ok show ?thesis
    by (cases "findConversationById s k") (simp_all add: handleTyping_def Let_def)
next
  case (UpdateMessage k c)
  from handleUpdateMessage_cases [of s u k c now] ok show ?thesis
    by (auto simp: UpdateMessage save_found_keys_simps)
next
  case (DeleteMessage k)
  from handleDeleteMessage_cases [of s u k now] ok show ?thesis
    by (auto simp: DeleteMessage save_found_keys_simps)
qed

lemma rest_keys:
  assumes ok: "messageKeysOk s"
  shows "messageKeysOk (fst (markAsRead s u k))"
    and "messageKeysOk (fst (updateMessage s u k c now))"
    and "messageKeysOk (fst (deleteMessage s u k now))"
    and "messageKeysOk (fst (createConversation s u p now))"
proof -
  show "messageKeysOk (fst (markAsRead s u k))"
    using ok by (cases "findMessage s k") (auto simp: markAsRead_def save_found_keys_simps)
  show "messageKeysOk (fst (updateMessage s u k c now))"
    using ok
    by (cases "findMessage s k") (auto simp: updateMessage_def Let_def save_found_keys_simps)
  show "messageKeysOk (fst (deleteMessage s u k now))"
    using ok by (cases "findMessage s k") (auto simp: deleteMessage_def save_found_keys_simps)
  have "messageKeysOk (fst (resolveConversation s u p now))"
    using ok by (simp add: messageKeysOk_def)
  then show "messageKeysOk (fst (createConversation s u p now))"
    using ok
    by (cases "findUser s p") (auto simp: createConversation_def split: prod.splits)
qed

lemma reachable_keys: "reachable s \<Longrightarrow> messageKeysOk s"
proof (induction rule: reachable.induct)
  case (start s)
  then show ?case by (simp add: messageKeysOk_def)
next
  case (accounts s us)
  then show ?case by (simp add: messageKeysOk_def)
qed (simp_all add: handleEvent_keys handleConnection_keys handleDisconnect_keys rest_keys)

lemma handleEvent_toParty:
  assumes "messageKeysOk s" and "e \<in> set (snd (handleEvent s u ev now))"
  shows "toParty (fst (handleEvent s u ev now)) e"
  using assms
  by (cases ev)
     (simp_all add: send_toParty markAsRead_toParty typing_toParty update_toParty
        delete_toParty)

text \<open>
  C1. In every reachable store, every event that a handler of an inbound message
  event (send, markAsRead, typing, updateMessage, deleteMessage) emits goes to a
  party: \<open>newMessage\<close>, \<open>messageDelivered\<close>, \<open>messageRead\<close>, \<open>messageUpdated\<close> and
  \<open>messageDeleted\<close> go to the connection or the room of the sender or of the receiver
  of the stored message they are about, and \<open>typing\<close> goes to the room of a
  participant of the stored conversation.
\<close>

theorem emissions_only_to_parties:
  assumes "reachable s"
  shows "\<forall>e \<in> set (snd (handleEvent s u ev now)). toParty (fst (handleEvent s u ev now)) e"
  using handleEvent_toParty [OF reachable_keys [OF assms]] by blast

theorem emissions_only_to_parties_witness:
  "reachable store1 \<and>
   snd (handleEvent store1 2 (MarkAsRead 1 None) 200) = [(Room 1, MessageRead 1 1)] \<and>
   findMessage (fst (handleEvent store1 2 (MarkAsRead 1 None) 200)) 1 =
     Some (message1\<lparr>isRead := True, isDelivered := True\<rparr>) \<and>
   senderId message1 = 1 \<and>
   toParty (fst (handleEvent store1 2 (MarkAsRead 1 None) 200)) (Room 1, MessageRead 1 1)"
proof -
  have "reachable store0" by (rule reachable.start) (simp_all add: store0_def)
  from reachable.event [OF this, of 1 "SendMessage 2 [0x61]" 100]
  have r: "reachable store1" by (simp only: handleEvent.simps store1_reached fst_conv)
  have e: "snd (handleEvent store1 2 (MarkAsRead 1 None) 200) = [(Room 1, MessageRead 1 1)]"
    and f: "findMessage (fst (handleEvent store1 2 (MarkAsRead 1 None) 200)) 1 =
      Some (message1\<lparr>isRead := True, isDelivered := True\<rparr>)"
    and m: "senderId message1 = 1"
    by (simp_all add: handleMarkAsRead_def findMessage_def saveMessage_def store1_def
        message1_def)
  from emissions_only_to_parties [OF r, of 2 "MarkAsRead 1 None" 200] r e f m
  show ?thesis by simp
qed

section \<open>Sanitized outputs\<close>

text \<open>Queries whose conditions read sanitized fields only commute with the view \<open>f\<close>.\<close>

lemma filter_view:
  assumes "map f xs = map f ys" and "\<And>x y. f x = f y \<Longrightarrow> P x = P y"
  shows "map f (filter P xs) = map f (filter P ys)"
  using assms(1)
proof (induction xs arbitrary: ys)
  case Nil
  then show ?case by simp
next
  case (Cons x xs)
  then obtain y ys' where ys: "ys = y # ys'" by (cases ys) auto
  with Cons.prems have h: "f x = f y" and t: "map f xs = map f ys'" by simp_all
  from assms(2) [OF h] Cons.IH [OF t] h show ?case by (simp add: ys)
qed

lemma find_view:
  assumes "map f xs = map f ys" and "\<And>x y. f x = f y \<Longrightarrow> P x = P y"
  shows "map_option f (find P xs) = map_option f (find P ys)"
  using assms(1)
proof (induction xs arbitrary: ys)
  case Nil
  then show ?case by simp
next
  case (Cons x xs)
  then obtain y ys' where ys: "ys = y # ys'" by (cases ys) auto
  with Cons.prems have h: "f x = f y" and t: "map f xs = map f ys'" by simp_all
  from assms(2) [OF h] Cons.IH [OF t] h show ?case by (simp add: ys)
qed

lemma insort_view:
  assumes "map f xs = map f ys" and "f x = f y" and "\<And>x y. f x = f y \<Longrightarrow> k x = k y"
  shows "map f (insort_key k x xs) = map f (insort_key k y ys)"
  using assms(1)
proof (induction xs arbitrary: ys)
  case Nil
  with assms(2) show ?case by simp
next
  case (Cons a xs)
  then obtain b ys' where ys: "ys = b # ys'" by (cases ys) auto
  with Cons.prems have h: "f a = f b" and t: "map f xs = map f ys'" by simp_all
  from assms(3) [OF h] assms(3) [OF assms(2)] Cons.IH [OF t] h t assms(2)
  show ?case by (simp add: ys)
qed

lemma sort_view:
  assumes "map f xs = map f ys" and "\<And>x y. f x = f y \<Longrightarrow> k x = k y"
  shows "map f (sort_key k xs) = map f (sort_key k ys)"
  using assms(1)
proof (induction xs arbitrary: ys)
  case Nil
  then show ?case by simp
next
  case (Cons x xs)
  then obtain y ys' where ys: "ys = y # ys'" by (cases ys) auto
  with Cons.prems have h: "f x = f y" and t: "map f xs = map f ys'" by simp_all
  from insort_view [OF Cons.IH [OF t] h assms(2)] show ?case by (simp add: ys)
qed

lemma replace_view:
  assumes "map f xs = map f ys" and "f m = f m'" and "\<And>x y. f x = f y \<Longrightarrow> k x = k y"
  shows "map f (map (\<lambda>x. if k x = k m then m else x) xs) =
         map f (map (\<lambda>x. if k x = k m' then m' else x) ys)"
  using assms(1)
proof (induction xs arbitrary: ys)
  case Nil
  then show ?case by simp
next
  case (Cons x xs)
  then obtain y ys' where ys: "ys = y # ys'" by (cases ys) auto
  with Cons.prems have h: "f x = f y" and t: "map f xs = map f ys'" by simp_all
  from assms(3) [OF h] assms(3) [OF assms(2)] Cons.IH [OF t] h assms(2)
  show ?case by (simp add: ys)
qed

text \<open>The sanitized view determines every field but the two backup fields.\<close>

lemma sanitizeMessage_eqD:
  assumes "sanitizeMessage x = sanitizeMessage y"
  shows "mId x = mId y" "content x = content y" "senderId x = senderId y"
    "receiverId x = receiverId y" "conversationId x = conversationId y"
    "isRead x = isRead y" "isDelivered x = isDelivered y" "isDeleted x = isDeleted y"
    "deletedAt x = deletedAt y" "isEdited x = isEdited y" "editedAt x = editedAt y"
    "createdAt x = createdAt y"
  using assms by (simp_all add: sanitizeMessage_def sanitized.defs)

lemma sanitizeMessage_update:
  "sanitizeMessage x = sanitizeMessage y \<Longrightarrow>
   sanitizeMessage (editMessage x c now) = sanitizeMessage (editMessage y c now)"
  "sanitizeMessage x = sanitizeMessage y \<Longrightarrow>
   sanitizeMessage (softDelete x now) = sanitizeMessage (softDelete y now)"
  "sanitizeMessage x = sanitizeMessage y \<Longrightarrow>
   sanitizeMessage (x\<lparr>isRead := a, isDelivered := b\<rparr>) =
   sanitizeMessage (y\<lparr>isRead := a, isDelivered := b\<rparr>)"
  "sanitizeMessage x = sanitizeMessage y \<Longrightarrow>
   sanitizeMessage (x\<lparr>isRead := a\<rparr>) = sanitizeMessage (y\<lparr>isRead := a\<rparr>)"
  "sanitizeMessage x = sanitizeMessage y \<Longrightarrow>
   sanitizeMessage (x\<lparr>isDelivered := b\<rparr>) = sanitizeMessage (y\<lparr>isDelivered := b\<rparr>)"
  by (simp_all add: sanitizeMessage_def sanitized.defs editMessage_def softDelete_def)

lemma saveMessage_frame [simp]:
  "users (saveMessage s m) = users s"
  "conversations (saveMessage s m) = conversations s"
  "userSockets (saveMessage s m) = userSockets s"
  "nextConversationId (saveMessage s m) = nextConversationId s"
  by (simp_all add: saveMessage_def)

lemma sameSanitizedI:
  assumes "users s = users t" and "conversations s = conversations t"
    and "userSockets s = userSockets t" and "nextConversationId s = nextConversationId t"
    and "nextMessageId s = nextMessageId t"
    and "map sanitizeMessage (messages s) = map sanitizeMessage (messages t)"
  shows "sameSanitized s t"
  unfolding sameSanitized_def using assms by (intro conjI)

lemma sameSanitizedD:
  assumes "sameSanitized s t"
  shows "users s = users t" and "conversations s = conversations t"
    and "userSockets s = userSockets t" and "nextConversationId s = nextConversationId t"
    and "nextMessageId s = nextMessageId t"
    and "map sanitizeMessage (messages s) = map sanitizeMessage (messages t)"
  using assms unfolding sameSanitized_def by blast+

lemma sameSanitized_save:
  assumes "sameSanitized s t" and "sanitizeMessage m = sanitizeMessage m'"
  shows "sameSanitized (saveMessage s m) (saveMessage t m')"
proof (rule sameSanitizedI)
  note d = sameSanitizedD [OF assms(1)]
  have ms: "messages (saveMessage s m) = map (\<lambda>x. if mId x = mId m then m else x) (messages s)"
    "messages (saveMessage t m') = map (\<lambda>x. if mId x = mId m' then m' else x) (messages t)"
    by (simp_all add: saveMessage_def)
  show "map sanitizeMessage (messages (saveMessage s m)) =
        map sanitizeMessage (messages (saveMessage t m'))"
    unfolding ms
    by (rule replace_view [OF d(6) assms(2)]) (rule sanitizeMessage_eqD(1))
  show "users (saveMessage s m) = users (saveMessage t m')"
    and "conversations (saveMessage s m) = conversations (saveMessage t m')"
    and "userSockets (saveMessage s m) = userSockets (saveMessage t m')"
    and "nextConversationId (saveMessage s m) = nextConversationId (saveMessage t m')"
    and "nextMessageId (saveMessage s m) = nextMessageId (saveMessage t m')"
    by (simp_all add: d)
qed

lemma sameSanitized_findMessage:
  assumes "sameSanitized s t"
  shows "map_option sanitizeMessage (findMessage s k) =
         map_option sanitizeMessage (findMessage t k)"
proof -
  from assms have eq: "map sanitizeMessage (messages s) = map sanitizeMessage (messages t)"
    by (simp add: sameSanitized_def)
  have "(mId x = k) = (mId y = k)" if "sanitizeMessage x = sanitizeMessage y" for x y
    using sanitizeMessage_eqD(1) [OF that] by simp
  from find_view [OF eq this] show ?thesis by (simp only: findMessage_def)
qed

lemma sameSanitized_findMessage_cases:
  assumes "sameSanitized s t"
  shows "(findMessage s k = None \<and> findMessage t k = None) \<or>
         (\<exists>m m'. findMessage s k = Some m \<and> findMessage t k = Some m' \<and>
                 sanitizeMessage m = sanitizeMessage m')"
proof -
  have "map_option f a = map_option f b \<Longrightarrow>
        (a = None \<and> b = None) \<or> (\<exists>m m'. a = Some m \<and> b = Some m' \<and> f m = f m')"
    for f :: "message \<Rightarrow> sanitized" and a b
    by (cases a; cases b) simp_all
  from this [OF sameSanitized_findMessage [OF assms, of k]] show ?thesis .
qed

lemma sameSanitized_findMessage_elim:
  assumes st: "sameSanitized s t"
  obtains (none) "findMessage s k = None" and "findMessage t k = None"
  | (some) m m' where "findMessage s k = Some m" and "findMessage t k = Some m'"
      and "sanitizeMessage m = sanitizeMessage m'"
proof -
  from sameSanitized_findMessage_cases [OF st, of k] show thesis
  proof (elim disjE exE conjE)
    assume "findMessage s k = None" "findMessage t k = None"
    then show thesis by (rule none)
  next
    fix m m'
    assume "findMessage s k = Some m" "findMessage t k = Some m'"
      "sanitizeMessage m = sanitizeMessage m'"
    then show thesis by (rule some)
  qed
qed

lemma sameSanitized_refl [simp]: "sameSanitized s s"
  by (simp add: sameSanitized_def)

lemma update_same:
  assumes st: "sameSanitized s t"
  shows "snd (handleUpdateMessage s u k c now) = snd (handleUpdateMessage t u k c now) \<and>
         sameSanitized (fst (handleUpdateMessage s u k c now))
           (fst (handleUpdateMessage t u k c now)) \<and>
         snd (updateMessage s u k c now) = snd (updateMessage t u k c now) \<and>
         sameSanitized (fst (updateMessage s u k c now)) (fst (updateMessage t u k c now))"
proof -
  show ?thesis
  proof (rule sameSanitized_findMessage_elim [OF st, of k])
    assume none: "findMessage s k = None" "findMessage t k = None"
    with st show ?thesis by (simp add: handleUpdateMessage_def updateMessage_def)
  next
    fix m m'
    assume some: "findMessage s k = Some m" "findMessage t k = Some m'"
      "sanitizeMessage m = sanitizeMessage m'"
    note e = sanitizeMessage_eqD [OF some(3)]
    note e' = sanitizeMessage_update(1) [OF some(3), of c now]
    note sv = sameSanitized_save [OF st e']
    from some(1,2) e(3,4,8) e' st sv show ?thesis
      by (simp add: handleUpdateMessage_def updateMessage_def Let_def editMessage_simps)
  qed
qed

lemma delete_same:
  assumes st: "sameSanitized s t"
  shows "snd (handleDeleteMessage s u k now) = snd (handleDeleteMessage t u k now) \<and>
         sameSanitized (fst (handleDeleteMessage s u k now))
           (fst (handleDeleteMessage t u k now)) \<and>
         snd (deleteMessage s u k now) = snd (deleteMessage t u k now) \<and>
         sameSanitized (fst (deleteMessage s u k now)) (fst (deleteMessage t u k now))"
proof -
  show ?thesis
  proof (rule sameSanitized_findMessage_elim [OF st, of k])
    assume none: "findMessage s k = None" "findMessage t k = None"
    with st show ?thesis by (simp add: handleDeleteMessage_def deleteMessage_def)
  next
    fix m m'
    assume some: "findMessage s k = Some m" "findMessage t k = Some m'"
      "sanitizeMessage m = sanitizeMessage m'"
    note e = sanitizeMessage_eqD [OF some(3)]
    note e' = sanitizeMessage_update(2) [OF some(3), of now]
    note sv = sameSanitized_save [OF st e']
    from some(1,2) e(3,4) e' st sv show ?thesis
      by (simp add: handleDeleteMessage_def deleteMessage_def Let_def softDelete_simps)
  qed
qed

lemma rest_read_same:
  assumes st: "sameSanitized s t"
  shows "snd (markAsRead s u k) = snd (markAsRead t u k) \<and>
         sameSanitized (fst (markAsRead s u k)) (fst (markAsRead t u k))"
proof -
  show ?thesis
  proof (rule sameSanitized_findMessage_elim [OF st, of k])
    assume none: "findMessage s k = None" "findMessage t k = None"
    with st show ?thesis by (simp add: markAsRead_def)
  next
    fix m m'
    assume some: "findMessage s k = Some m" "findMessage t k = Some m'"
      "sanitizeMessage m = sanitizeMessage m'"
    note e = sanitizeMessage_eqD [OF some(3)]
    note e' = sanitizeMessage_update(4) [OF some(3), of True]
    note sv = sameSanitized_save [OF st e']
    from some(1,2) e(4) st sv show ?thesis
      by (simp add: markAsRead_def)
  qed
qed

lemma markMessagesRead_same:
  assumes "sameSanitized s t" and "map sanitizeMessage L = map sanitizeMessage L'"
  shows "snd (markMessagesRead s cid L) = snd (markMessagesRead t cid L') \<and>
         sameSanitized (fst (markMessagesRead s cid L)) (fst (markMessagesRead t cid L'))"
  using assms
proof (induction L arbitrary: L' s t)
  case Nil
  then show ?case by simp
next
  case (Cons m rest)
  then obtain m' rest' where L': "L' = m' # rest'" by (cases L') auto
  with Cons.prems(2) have h: "sanitizeMessage m = sanitizeMessage m'"
    and tl: "map sanitizeMessage rest = map sanitizeMessage rest'" by simp_all
  note e = sanitizeMessage_eqD [OF h]
  note sv = sameSanitized_save [OF Cons.prems(1) sanitizeMessage_update(3) [OF h, of True True]]
  from Cons.IH [OF sv tl] e(1,3) show ?case
    unfolding L' fst_markMessagesRead_Cons snd_markMessagesRead_Cons by simp
qed

lemma snd_markDelivered_Cons:
  "snd (markDelivered s (m # rest)) =
   (Room (senderId m), MessageDelivered (mId m) (conversationId m)) #
   snd (markDelivered (saveMessage s (m\<lparr>isDelivered := True\<rparr>)) rest)"
  by (simp add: Let_def split: prod.splits)

lemma markDelivered_same:
  assumes "sameSanitized s t" and "map sanitizeMessage L = map sanitizeMessage L'"
  shows "snd (markDelivered s L) = snd (markDelivered t L') \<and>
         sameSanitized (fst (markDelivered s L)) (fst (markDelivered t L'))"
  using assms
proof (induction L arbitrary: L' s t)
  case Nil
  then show ?case by simp
next
  case (Cons m rest)
  then obtain m' rest' where L': "L' = m' # rest'" by (cases L') auto
  with Cons.prems(2) have h: "sanitizeMessage m = sanitizeMessage m'"
    and tl: "map sanitizeMessage rest = map sanitizeMessage rest'" by simp_all
  note e = sanitizeMessage_eqD [OF h]
  note sv = sameSanitized_save [OF Cons.prems(1) sanitizeMessage_update(5) [OF h, of True]]
  from Cons.IH [OF sv tl] e(1,3,5) show ?case
    unfolding L' fst_markDelivered_Cons snd_markDelivered_Cons by simp
qed

lemma socket_read_single_same:
  assumes st: "sameSanitized s t"
  shows "snd (handleMarkAsRead s u k None) = snd (handleMarkAsRead t u k None) \<and>
         sameSanitized (fst (handleMarkAsRead s u k None)) (fst (handleMarkAsRead t u k None))"
proof (rule sameSanitized_findMessage_elim [OF st, of k])
  assume none: "findMessage s k = None" "findMessage t k = None"
  with st show ?thesis by (simp add: handleMarkAsRead_def)
next
  fix m m'
  assume some: "findMessage s k = Some m" "findMessage t k = Some m'"
    "sanitizeMessage m = sanitizeMessage m'"
  note e = sanitizeMessage_eqD [OF some(3)]
  note sv = sameSanitized_save [OF st sanitizeMessage_update(3) [OF some(3), of True True]]
  from some(1,2) e(1,3,4,5) st sv show ?thesis
    by (simp add: handleMarkAsRead_def Let_def)
qed

lemma socket_read_same:
  assumes st: "sameSanitized s t"
  shows "snd (handleMarkAsRead s u k cv) = snd (handleMarkAsRead t u k cv) \<and>
         sameSanitized (fst (handleMarkAsRead s u k cv)) (fst (handleMarkAsRead t u k cv))"
proof (cases "cv \<noteq> None \<and> cv \<noteq> Some 0")
  case True
  let ?P = "\<lambda>m. conversationId m = the cv \<and> receiverId m = u \<and> \<not> isRead m"
  have "?P x = ?P y" if "sanitizeMessage x = sanitizeMessage y" for x y
    using sanitizeMessage_eqD(4,5,6) [OF that] by simp
  from filter_view [OF sameSanitizedD(6) [OF st] this]
  have "map sanitizeMessage (filter ?P (messages s)) = map sanitizeMessage (filter ?P (messages t))" .
  from markMessagesRead_same [OF st this, of "the cv"] True show ?thesis
    by (simp add: handleMarkAsRead_def)
next
  case False
  then have "handleMarkAsRead s u k cv = handleMarkAsRead s u k None"
    and "handleMarkAsRead t u k cv = handleMarkAsRead t u k None"
    by (auto simp: handleMarkAsRead_def)
  with socket_read_single_same [OF st, of u k] show ?thesis by simp
qed

lemma findUser_same: "sameSanitized s t \<Longrightarrow> findUser s k = findUser t k"
  by (simp add: findUser_def sameSanitizedD(1))

lemma findConversationById_same:
  "sameSanitized s t \<Longrightarrow> findConversationById s k = findConversationById t k"
  by (simp add: findConversationById_def sameSanitizedD(2))

lemma resolveConversation_same:
  assumes st: "sameSanitized s t"
  shows "snd (resolveConversation s a b now) = snd (resolveConversation t a b now) \<and>
         sameSanitized (fst (resolveConversation s a b now)) (fst (resolveConversation t a b now))"
proof -
  note d = sameSanitizedD [OF st]
  have f: "findConversation s a b = findConversation t a b"
    by (simp add: findConversation_def d(2))
  have c: "conversations (fst (resolveConversation s a b now)) =
           conversations (fst (resolveConversation t a b now))"
    "nextConversationId (fst (resolveConversation s a b now)) =
     nextConversationId (fst (resolveConversation t a b now))"
    "snd (resolveConversation s a b now) = snd (resolveConversation t a b now)"
    using f d(2,4)
    by (cases "findConversation t a b";
        simp add: resolveConversation_def insertConversation_def Let_def)+
  have "sameSanitized (fst (resolveConversation s a b now)) (fst (resolveConversation t a b now))"
    by (rule sameSanitizedI) (simp_all add: c d)
  with c(3) show ?thesis by simp
qed

lemma createConversation_same:
  assumes st: "sameSanitized s t"
  shows "snd (createConversation s u p now) = snd (createConversation t u p now) \<and>
         sameSanitized (fst (createConversation s u p now)) (fst (createConversation t u p now))"
  using resolveConversation_same [OF st, of u p now] findUser_same [OF st, of p] st
  by (cases "findUser t p") (simp_all add: createConversation_def split_beta)

lemma typing_same:
  assumes st: "sameSanitized s t"
  shows "snd (handleTyping s u k) = snd (handleTyping t u k) \<and>
         sameSanitized (fst (handleTyping s u k)) (fst (handleTyping t u k))"
  using findConversationById_same [OF st, of k] st
  by (cases "findConversationById t k") (simp_all add: handleTyping_def Let_def)

lemma sameSanitized_users:
  assumes "sameSanitized s t"
  shows "sameSanitized (s\<lparr>users := us\<rparr>) (t\<lparr>users := us\<rparr>)"
    and "sameSanitized (s\<lparr>userSockets := m\<rparr>) (t\<lparr>userSockets := m\<rparr>)"
  using sameSanitizedD [OF assms] by (simp_all add: sameSanitized_def)

lemma updateUserStatus_same:
  assumes st: "sameSanitized s t"
  shows "sameSanitized (updateUserStatus s u x seen) (updateUserStatus t u x seen)"
  using findUser_same [OF st, of u] st sameSanitized_users(1) [OF st] sameSanitizedD(1) [OF st]
  by (cases "findUser t u") (simp_all add: updateUserStatus_def saveUser_def)

lemma disconnect_same:
  assumes st: "sameSanitized s t"
  shows "snd (handleDisconnect s u now) = snd (handleDisconnect t u now) \<and>
         sameSanitized (fst (handleDisconnect s u now)) (fst (handleDisconnect t u now))"
  using st updateUserStatus_same [OF sameSanitized_users(2) [OF st]] sameSanitizedD(3) [OF st]
  by (simp add: handleDisconnect_def Let_def)

lemma connect_same:
  assumes st: "sameSanitized s t"
  shows "snd (handleConnection s u sock now) = snd (handleConnection t u sock now) \<and>
         sameSanitized (fst (handleConnection s u sock now)) (fst (handleConnection t u sock now))"
proof (cases "u = 0")
  case True
  with st show ?thesis by (simp add: handleConnection_def)
next
  case False
  define s2 where "s2 = updateUserStatus (s\<lparr>userSockets := (userSockets s)(u \<mapsto> sock)\<rparr>) u ''online'' now"
  define t2 where "t2 = updateUserStatus (t\<lparr>userSockets := (userSockets t)(u \<mapsto> sock)\<rparr>) u ''online'' now"
  have st2: "sameSanitized s2 t2"
    unfolding s2_def t2_def sameSanitizedD(3) [OF st]
    by (rule updateUserStatus_same [OF sameSanitized_users(2) [OF st]])
  let ?P = "\<lambda>m. receiverId m = u \<and> \<not> isDelivered m"
  have "?P x = ?P y" if "sanitizeMessage x = sanitizeMessage y" for x y
    using sanitizeMessage_eqD(4,7) [OF that] by simp
  from filter_view [OF sameSanitizedD(6) [OF st2] this]
  have "map sanitizeMessage (filter ?P (messages s2)) = map sanitizeMessage (filter ?P (messages t2))" .
  from markDelivered_same [OF st2 this]
  have "snd (markPendingMessagesAsDelivered s2 u) = snd (markPendingMessagesAsDelivered t2 u) \<and>
        sameSanitized (fst (markPendingMessagesAsDelivered s2 u))
          (fst (markPendingMessagesAsDelivered t2 u))"
    by (simp add: markPendingMessagesAsDelivered_def)
  moreover have "handleConnection s u sock now =
      (fst (markPendingMessagesAsDelivered s2 u),
       (Broadcast, UserStatusChange u ''online'' now) # snd (markPendingMessagesAsDelivered s2 u))"
    "handleConnection t u sock now =
      (fst (markPendingMessagesAsDelivered t2 u),
       (Broadcast, UserStatusChange u ''online'' now) # snd (markPendingMessagesAsDelivered t2 u))"
    using False by (simp_all add: handleConnection_def Let_def s2_def t2_def split_beta)
  ultimately show ?thesis by simp
qed

lemma insertMessage_same:
  assumes st: "sameSanitized s t"
  shows "snd (insertMessage s c a b k now) = snd (insertMessage t c a b k now) \<and>
         sameSanitized (fst (insertMessage s c a b k now)) (fst (insertMessage t c a b k now))"
  using sameSanitizedD [OF st] by (simp add: insertMessage_def Let_def sameSanitized_def)

lemma saveConversation_same:
  assumes st: "sameSanitized s t"
  shows "sameSanitized (saveConversation s c) (saveConversation t c)"
  using sameSanitizedD [OF st] by (simp add: saveConversation_def sameSanitized_def)

lemma insertMessage_frame [simp]:
  "userSockets (fst (insertMessage s c a b k now)) = userSockets s"
  "mId (snd (insertMessage s c a b k now)) = nextMessageId s"
  by (simp_all add: insertMessage_def Let_def)

lemma handleSendMessage_unfold:
  assumes "a \<noteq> b" and "findUser s b = Some r"
  shows "handleSendMessage s a b c now =
    (let conv = snd (resolveConversation s a b now);
         s2 = fst (insertMessage (fst (resolveConversation s a b now)) c a b (cId conv) now);
         m = snd (insertMessage (fst (resolveConversation s a b now)) c a b (cId conv) now);
         s3 = saveConversation s2 (conv\<lparr>updatedAt := now\<rparr>)
     in if userSockets s b = None then (s3, [(Socket a, NewMessage (sanitizeMessage m))])
        else (saveMessage s3 (m\<lparr>isDelivered := True\<rparr>),
              [(Socket a, NewMessage (sanitizeMessage m)),
               (Room b, NewMessage (sanitizeMessage (m\<lparr>isDelivered := True\<rparr>))),
               (Socket a, MessageDelivered (mId m) (cId conv))]))"
proof -
  have p: "(user1Id (snd (resolveConversation s a b now)) \<noteq> a \<and>
            user2Id (snd (resolveConversation s a b now)) \<noteq> a) = False"
    using resolveConversation_participant [of s a b now] by blast
  show ?thesis
    using assms
    by (cases "userSockets s b")
       (simp_all add: handleSendMessage_def split_beta Let_def p)
qed

lemma send_same:
  assumes st: "sameSanitized s t"
  shows "snd (handleSendMessage s a b c now) = snd (handleSendMessage t a b c now) \<and>
         sameSanitized (fst (handleSendMessage s a b c now)) (fst (handleSendMessage t a b c now))"
proof (cases "a = b \<or> findUser t b = None")
  case True
  with st findUser_same [OF st, of b] show ?thesis
    by (auto simp: handleSendMessage_def)
next
  case False
  then obtain r where ne: "a \<noteq> b" and r: "findUser t b = Some r" "findUser s b = Some r"
    using findUser_same [OF st, of b] by auto
  define conv where "conv = snd (resolveConversation s a b now)"
  define s1 where "s1 = fst (resolveConversation s a b now)"
  define t1 where "t1 = fst (resolveConversation t a b now)"
  from resolveConversation_same [OF st, of a b now]
  have conv: "snd (resolveConversation t a b now) = conv" and st1: "sameSanitized s1 t1"
    by (simp_all add: conv_def s1_def t1_def)
  define m where "m = snd (insertMessage s1 c a b (cId conv) now)"
  define s3 where "s3 = saveConversation (fst (insertMessage s1 c a b (cId conv) now))
    (conv\<lparr>updatedAt := now\<rparr>)"
  define t3 where "t3 = saveConversation (fst (insertMessage t1 c a b (cId conv) now))
    (conv\<lparr>updatedAt := now\<rparr>)"
  from insertMessage_same [OF st1, of c a b "cId conv" now]
  have m: "snd (insertMessage t1 c a b (cId conv) now) = m"
    and st2: "sameSanitized (fst (insertMessage s1 c a b (cId conv) now))
      (fst (insertMessage t1 c a b (cId conv) now))"
    by (simp_all add: m_def)
  have st3: "sameSanitized s3 t3"
    unfolding s3_def t3_def by (rule saveConversation_same [OF st2])
  note sv = sameSanitized_save [OF st3 refl [of "sanitizeMessage (m\<lparr>isDelivered := True\<rparr>)"]]
  have hs: "handleSendMessage s a b c now =
     (if userSockets s b = None then (s3, [(Socket a, NewMessage (sanitizeMessage m))])
        else (saveMessage s3 (m\<lparr>isDelivered := True\<rparr>),
              [(Socket a, NewMessage (sanitizeMessage m)),
               (Room b, NewMessage (sanitizeMessage (m\<lparr>isDelivered := True\<rparr>))),
               (Socket a, MessageDelivered (mId m) (cId conv))]))"
    unfolding handleSendMessage_unfold [OF ne r(2)] Let_def
    by (simp only: conv_def s1_def m_def s3_def)
  have ht: "handleSendMessage t a b c now =
     (if userSockets t b = None then (t3, [(Socket a, NewMessage (sanitizeMessage m))])
        else (saveMessage t3 (m\<lparr>isDelivered := True\<rparr>),
              [(Socket a, NewMessage (sanitizeMessage m)),
               (Room b, NewMessage (sanitizeMessage (m\<lparr>isDelivered := True\<rparr>))),
               (Socket a, MessageDelivered (mId m) (cId conv))]))"
    unfolding handleSendMessage_unfold [OF ne r(1)] Let_def
    by (simp only: conv t1_def [symmetric] m t3_def)
  from st3 sv sameSanitizedD(3) [OF st] show ?thesis
    unfolding hs ht by (cases "userSockets t b") simp_all
qed

lemma event_same:
  assumes st: "sameSanitized s t"
  shows "snd (handleEvent s u ev now) = snd (handleEvent t u ev now) \<and>
         sameSanitized (fst (handleEvent s u ev now)) (fst (handleEvent t u ev now))"
proof (cases ev)
  case (SendMessage rId c)
  with send_same [OF st] show ?thesis by simp
next
  case (MarkAsRead k cv)
  with socket_read_same [OF st] show ?thesis by simp
next
  case (TypingIn k)
  with typing_same [OF st] show ?thesis by simp
next
  case (UpdateMessage k c)
  with update_same [OF st, of u k c now] show ?thesis by simp
next
  case (DeleteMessage k)
  with delete_same [OF st, of u k now] show ?thesis by simp
qed

lemma getMessages_same:
  assumes st: "sameSanitized s t"
  shows "getMessages s u k p l = getMessages t u k p l"
proof -
  let ?P = "\<lambda>m. conversationId m = k \<and> (senderId m = u \<or> receiverId m = u)"
  have "?P x = ?P y" if "sanitizeMessage x = sanitizeMessage y" for x y
    using sanitizeMessage_eqD(3,4,5) [OF that] by simp
  from filter_view [OF sameSanitizedD(6) [OF st] this]
  have "map sanitizeMessage (filter ?P (messages s)) = map sanitizeMessage (filter ?P (messages t))" .
  from sort_view [OF this sanitizeMessage_eqD(12)]
  have "map sanitizeMessage (sort_key createdAt (filter ?P (messages s))) =
        map sanitizeMessage (sort_key createdAt (filter ?P (messages t)))" .
  then have "sanitizeMessages (take a (drop b (rev (sort_key createdAt (filter ?P (messages s)))))) =
        sanitizeMessages (take a (drop b (rev (sort_key createdAt (filter ?P (messages t))))))"
    for a b
    by (simp add: sanitizeMessages_def take_map [symmetric] drop_map [symmetric] rev_map [symmetric])
  with findConversationById_same [OF st, of k] show ?thesis
    by (cases "findConversationById t k") (simp_all add: getMessages_def Let_def)
qed

lemma map_view:
  assumes "map f xs = map f ys" and "\<And>x y. f x = f y \<Longrightarrow> g x = g y"
  shows "map g xs = map g ys"
  using assms(1)
proof (induction xs arbitrary: ys)
  case Nil
  then show ?case by simp
next
  case (Cons x xs)
  then obtain y ys' where ys: "ys = y # ys'" by (cases ys) auto
  with Cons.prems have h: "f x = f y" and t: "map f xs = map f ys'" by simp_all
  from assms(2) [OF h] Cons.IH [OF t] show ?case by (simp add: ys)
qed

lemma maxIds_view:
  assumes "map sanitizeMessage xs = map sanitizeMessage ys"
  shows "maxIds xs = maxIds ys"
proof -
  have c: "map conversationId xs = map conversationId ys"
    by (rule map_view [OF assms sanitizeMessage_eqD(5)])
  have "map mId (filter (\<lambda>x. conversationId x = k) xs) =
        map mId (filter (\<lambda>x. conversationId x = k) ys)" for k
  proof -
    have "(conversationId x = k) = (conversationId y = k)"
      if "sanitizeMessage x = sanitizeMessage y" for x y
      using sanitizeMessage_eqD(5) [OF that] by simp
    from filter_view [OF assms this]
    have "map sanitizeMessage (filter (\<lambda>x. conversationId x = k) xs) =
          map sanitizeMessage (filter (\<lambda>x. conversationId x = k) ys)" .
    then show ?thesis by (rule map_view) (rule sanitizeMessage_eqD(1))
  qed
  with c show ?thesis by (simp add: maxIds_def)
qed

lemma lastMessagesOf_same:
  assumes st: "sameSanitized s t"
  shows "map sanitizeMessage (lastMessagesOf s u ids) = map sanitizeMessage (lastMessagesOf t u ids)"
proof -
  let ?P = "\<lambda>m. conversationId m \<in> set ids \<and> (senderId m = u \<or> receiverId m = u)"
  have "?P x = ?P y" if "sanitizeMessage x = sanitizeMessage y" for x y
    using sanitizeMessage_eqD(3,4,5) [OF that] by simp
  from filter_view [OF sameSanitizedD(6) [OF st] this]
  have rows: "map sanitizeMessage (userRows s u ids) = map sanitizeMessage (userRows t u ids)"
    by (simp only: userRows_def)
  define ks where "ks = maxIds (userRows t u ids)"
  have ks: "maxIds (userRows s u ids) = ks" by (simp add: ks_def maxIds_view [OF rows])
  have "(mId x \<in> set ks) = (mId y \<in> set ks)"
    if "sanitizeMessage x = sanitizeMessage y" for x y
    using sanitizeMessage_eqD(1) [OF that] by simp
  from filter_view [OF rows this] show ?thesis
    by (simp only: lastMessagesOf_def Let_def ks ks_def [symmetric])
qed

lemma unreadCountOf_same:
  assumes st: "sameSanitized s t"
  shows "unreadCountOf s u ids = unreadCountOf t u ids"
proof
  fix k
  let ?P = "\<lambda>m. conversationId m \<in> set ids \<and> receiverId m = u \<and> \<not> isRead m \<and>
                 conversationId m = k"
  have "?P x = ?P y" if "sanitizeMessage x = sanitizeMessage y" for x y
    using sanitizeMessage_eqD(4,5,6) [OF that] by simp
  from filter_view [OF sameSanitizedD(6) [OF st] this]
  have "map sanitizeMessage (filter ?P (messages s)) = map sanitizeMessage (filter ?P (messages t))" .
  from arg_cong [OF this, of length] show "unreadCountOf s u ids k = unreadCountOf t u ids k"
    by (simp add: unreadCountOf_def)
qed

lemma previewOf_view:
  assumes "map sanitizeMessage L = map sanitizeMessage L'"
  shows "previewOf u ps L cnt conv = previewOf u ps L' cnt conv"
proof -
  have "(conversationId x = cId conv) = (conversationId y = cId conv)"
    if "sanitizeMessage x = sanitizeMessage y" for x y
    using sanitizeMessage_eqD(5) [OF that] by simp
  from find_view [OF assms this]
  have f: "map_option sanitizeMessage (find (\<lambda>m. conversationId m = cId conv) L) =
        map_option sanitizeMessage (find (\<lambda>m. conversationId m = cId conv) L')" .
  show ?thesis
  proof (cases "find (\<lambda>m. conversationId m = cId conv) L")
    case None
    with f have "find (\<lambda>m. conversationId m = cId conv) L' = None" by simp
    with None show ?thesis by (simp add: previewOf_def)
  next
    case (Some m)
    with f have "map_option sanitizeMessage (find (\<lambda>m. conversationId m = cId conv) L') =
        Some (sanitizeMessage m)" by simp
    then obtain m' where m': "find (\<lambda>m. conversationId m = cId conv) L' = Some m'"
      and e: "sanitizeMessage m = sanitizeMessage m'"
      by (cases "find (\<lambda>m. conversationId m = cId conv) L'") simp_all
    have sl: "sanitizeLastMessage (Some m) = sanitizeLastMessage (Some m')"
      using e by (simp add: sanitizeLastMessage_def)
    from Some m' sanitizeMessage_eqD(3,4) [OF e] show ?thesis
      by (simp add: previewOf_def Let_def sl)
  qed
qed

lemma getConversations_same:
  assumes st: "sameSanitized s t"
  shows "getConversations s u = getConversations t u"
proof -
  have "previewOf u ps (lastMessagesOf s u ids) (unreadCountOf s u ids) =
        previewOf u ps (lastMessagesOf t u ids) (unreadCountOf t u ids)" for ps ids
    using previewOf_view [OF lastMessagesOf_same [OF st, of u ids]]
    by (auto simp: unreadCountOf_same [OF st])
  then show ?thesis
    by (simp add: getConversations_def Let_def sameSanitizedD(1,2) [OF st])
qed

lemma serve_same:
  assumes st: "sameSanitized s t"
  shows "snd (serve s r) = snd (serve t r) \<and> sameSanitized (fst (serve s r)) (fst (serve t r))"
proof (cases r)
  case (Event u ev now)
  with event_same [OF st, of u ev now] show ?thesis by simp
next
  case (Connect u sock now)
  with connect_same [OF st, of u sock now] show ?thesis by simp
next
  case (Disconnect u now)
  with disconnect_same [OF st, of u now] show ?thesis by simp
next
  case (GetMessages u k p l)
  with getMessages_same [OF st, of u k p l] st show ?thesis by simp
next
  case (GetConversations u)
  with getConversations_same [OF st, of u] st show ?thesis by simp
next
  case (CreateConversation u p now)
  with createConversation_same [OF st, of u p now] show ?thesis by simp
next
  case (PutRead u k)
  with rest_read_same [OF st, of u k] show ?thesis by simp
next
  case (PutMessage u k c now)
  with update_same [OF st, of u k c now] show ?thesis by simp
next
  case (DeleteRoute u k now)
  with delete_same [OF st, of u k now] show ?thesis by simp
qed

text \<open>
  C9. \<open>sanitizeMessage\<close> gives the same result for two messages that differ only in
  \<open>originalContent\<close> and \<open>editHistory\<close>. On two stores that differ only in these two
  fields of their messages, every request other than the history route (every
  socket event, connection and disconnection, the REST message list, the
  conversation list, conversation creation, and the REST read, edit and delete)
  sends out the same events or the same response, and leaves two stores that again
  differ only in these fields. (The history route tells two such stores apart, as
  the example after the theorem shows.)
\<close>

theorem only_history_exposes_backup_fields:
  "sanitizeMessage (m\<lparr>originalContent := x, editHistory := h\<rparr>) = sanitizeMessage m \<and>
   (sameSanitized s t \<longrightarrow>
      snd (serve s r) = snd (serve t r) \<and> sameSanitized (fst (serve s r)) (fst (serve t r)))"
  using serve_same [of s t r] by (simp add: sanitizeMessage_def sanitized.defs)

theorem only_history_exposes_backup_fields_witness:
  "sanitizeMessage (message1\<lparr>originalContent := Some [0x7A], editHistory := None\<rparr>) =
     sanitizeMessage message1 \<and>
   sameSanitized store1 store1' \<and>
   snd (serve store1 (GetMessages 1 1 None None)) = MessageList (Ok [sanitizeMessage message1]) \<and>
   snd (serve store1' (GetMessages 1 1 None None)) = MessageList (Ok [sanitizeMessage message1]) \<and>
   sameSanitized (fst (serve store1 (GetMessages 1 1 None None)))
     (fst (serve store1' (GetMessages 1 1 None None))) \<and>
   getMessageHistory store1 1 1 \<noteq> getMessageHistory store1' 1 1"
proof -
  have h: "sameSanitized store1 store1'"
    by (simp add: sameSanitized_def store1'_def store1_def sanitizeMessage_def sanitized.defs)
  have g: "snd (serve store1 (GetMessages 1 1 None None)) =
      MessageList (Ok [sanitizeMessage message1])"
    by (simp add: getMessages_def findConversationById_def store1_def message1_def
        orDefault_def sanitizeMessages_def Let_def)
  have d: "getMessageHistory store1 1 1 \<noteq> getMessageHistory store1' 1 1"
    by (simp add: getMessageHistory_def findMessage_def store1'_def store1_def message1_def)
  from only_history_exposes_backup_fields
    [where m = message1 and x = "Some [0x7A]" and h = None and s = store1 and t = store1'
       and r = "GetMessages 1 1 None None"] h g d
  show ?thesis by simp
qed

section \<open>The read flag on the other paths\<close>

text \<open>
  Every real-time handler and every other REST route keeps the invariant that the
  REST mark-as-read route breaks.
\<close>

lemma readDelivered_save:
  assumes "readDelivered s" and "isRead m \<longrightarrow> isDelivered m"
  shows "readDelivered (saveMessage s m)"
  using assms by (auto simp add: readDelivered_def saveMessage_def list_all_iff)

lemma readDelivered_found:
  assumes "readDelivered s" and "findMessage s k = Some m"
  shows "isRead m \<longrightarrow> isDelivered m"
  using assms(1) findMessage_mem [OF assms(2)] by (simp add: readDelivered_def list_all_iff)

lemma readDelivered_markMessagesRead:
  "readDelivered s \<Longrightarrow> readDelivered (fst (markMessagesRead s cid L))"
proof (induction L arbitrary: s)
  case Nil
  then show ?case by simp
next
  case (Cons m rest)
  have "readDelivered (saveMessage s (m\<lparr>isRead := True, isDelivered := True\<rparr>))"
    by (rule readDelivered_save [OF Cons.prems]) simp
  from Cons.IH [OF this] show ?case by (simp only: fst_markMessagesRead_Cons)
qed

lemma readDelivered_markDelivered:
  "readDelivered s \<Longrightarrow> readDelivered (fst (markDelivered s L))"
proof (induction L arbitrary: s)
  case Nil
  then show ?case by simp
next
  case (Cons m rest)
  have "readDelivered (saveMessage s (m\<lparr>isDelivered := True\<rparr>))"
    by (rule readDelivered_save [OF Cons.prems]) simp
  from Cons.IH [OF this] show ?case by (simp only: fst_markDelivered_Cons)
qed

lemma readDelivered_send:
  assumes inv: "readDelivered s"
  shows "readDelivered (fst (handleSendMessage s a b c now))"
proof (cases "a = b \<or> findUser s b = None")
  case True
  from handleSendMessage_refused [OF True, of c now] inv show ?thesis by auto
next
  case False
  then obtain r where ne: "a \<noteq> b" and r: "findUser s b = Some r" by auto
  define conv where "conv = snd (resolveConversation s a b now)"
  define s1 where "s1 = fst (resolveConversation s a b now)"
  define m where "m = snd (insertMessage s1 c a b (cId conv) now)"
  define s3 where "s3 = saveConversation (fst (insertMessage s1 c a b (cId conv) now))
    (conv\<lparr>updatedAt := now\<rparr>)"
  have "messages s3 = messages s @ [m]" and nr: "\<not> isRead m"
    by (simp_all add: s3_def m_def s1_def insertMessage_def Let_def)
  with inv have 3: "readDelivered s3" by (simp add: readDelivered_def)
  have 4: "readDelivered (saveMessage s3 (m\<lparr>isDelivered := True\<rparr>))"
    by (rule readDelivered_save [OF 3]) simp
  have "handleSendMessage s a b c now =
     (if userSockets s b = None then (s3, [(Socket a, NewMessage (sanitizeMessage m))])
        else (saveMessage s3 (m\<lparr>isDelivered := True\<rparr>),
              [(Socket a, NewMessage (sanitizeMessage m)),
               (Room b, NewMessage (sanitizeMessage (m\<lparr>isDelivered := True\<rparr>))),
               (Socket a, MessageDelivered (mId m) (cId conv))]))"
    unfolding handleSendMessage_unfold [OF ne r] Let_def
    by (simp only: conv_def s1_def m_def s3_def)
  with 3 4 show ?thesis by simp
qed

lemma readDelivered_markAsRead:
  assumes inv: "readDelivered s"
  shows "readDelivered (fst (handleMarkAsRead s u k cv))"
proof (cases "cv \<noteq> None \<and> cv \<noteq> Some 0")
  case True
  with readDelivered_markMessagesRead [OF inv] show ?thesis
    by (simp add: handleMarkAsRead_def)
next
  case False
  then have single: "handleMarkAsRead s u k cv = handleMarkAsRead s u k None"
    by (auto simp: handleMarkAsRead_def)
  have "readDelivered (saveMessage s (m\<lparr>isRead := True, isDelivered := True\<rparr>))" for m
    by (rule readDelivered_save [OF inv]) simp
  with inv show ?thesis unfolding single
    by (cases "findMessage s k") (simp_all add: handleMarkAsRead_def Let_def)
qed

lemma readDelivered_edit_delete:
  assumes inv: "readDelivered s" and f: "findMessage s k = Some m"
  shows "readDelivered (saveMessage s (editMessage m c now))"
    and "readDelivered (saveMessage s (softDelete m now))"
  using readDelivered_found [OF inv f]
  by (auto intro!: readDelivered_save [OF inv] simp: editMessage_def softDelete_def)

lemma readDelivered_event:
  assumes inv: "readDelivered s"
  shows "readDelivered (fst (handleEvent s u ev now))"
proof (cases ev)
  case (SendMessage rId c)
  with readDelivered_send [OF inv] show ?thesis by simp
next
  case (MarkAsRead k cv)
  with readDelivered_markAsRead [OF inv] show ?thesis by simp
next
  case (TypingIn k)
  with inv show ?thesis
    by (cases "findConversationById s k") (simp_all add: handleTyping_def Let_def)
next
  case (UpdateMessage k c)
  from handleUpdateMessage_cases [of s u k c now] inv show ?thesis
    by (auto simp: UpdateMessage readDelivered_edit_delete)
next
  case (DeleteMessage k)
  from handleDeleteMessage_cases [of s u k now] inv show ?thesis
    by (auto simp: DeleteMessage readDelivered_edit_delete)
qed

lemma readDelivered_connection:
  assumes inv: "readDelivered s"
  shows "readDelivered (fst (handleConnection s u sock now))"
    and "readDelivered (fst (handleDisconnect s u now))"
proof -
  define s2 where "s2 = updateUserStatus (s\<lparr>userSockets := (userSockets s)(u \<mapsto> sock)\<rparr>) u ''online'' now"
  from inv have "readDelivered s2" by (simp add: readDelivered_def s2_def)
  from readDelivered_markDelivered [OF this] inv
  show "readDelivered (fst (handleConnection s u sock now))"
    by (simp add: handleConnection_def Let_def split_beta markPendingMessagesAsDelivered_def
        s2_def)
  from inv show "readDelivered (fst (handleDisconnect s u now))"
    by (simp add: handleDisconnect_def Let_def readDelivered_def)
qed

lemma readDelivered_rest:
  assumes inv: "readDelivered s"
  shows "readDelivered (fst (updateMessage s u k c now))"
    and "readDelivered (fst (deleteMessage s u k now))"
    and "readDelivered (fst (createConversation s u p now))"
proof -
  show "readDelivered (fst (updateMessage s u k c now))"
    using inv
    by (cases "findMessage s k") (auto simp: updateMessage_def Let_def readDelivered_edit_delete)
  show "readDelivered (fst (deleteMessage s u k now))"
    using inv
    by (cases "findMessage s k") (auto simp: deleteMessage_def readDelivered_edit_delete)
  have "readDelivered (fst (resolveConversation s u p now))"
    using inv by (simp add: readDelivered_def)
  then show "readDelivered (fst (createConversation s u p now))"
    using inv
    by (cases "findUser s p") (auto simp: createConversation_def split: prod.splits)
qed

section \<open>One conversation for each unordered pair\<close>

lemma pairOf_eq:
  "pairOf x = pairOf y \<longleftrightarrow>
   (user1Id x = user1Id y \<and> user2Id x = user2Id y) \<or>
   (user1Id x = user2Id y \<and> user2Id x = user1Id y)"
  by (auto simp: pairOf_def min_def max_def split: if_splits)

lemma fresh_id:
  "list_all (\<lambda>c. cId c < n) cs \<Longrightarrow> n \<notin> cId ` set cs \<and> list_all (\<lambda>c. cId c < Suc n) cs"
  by (induction cs) auto

lemma conversationsUnique_resolve:
  assumes inv: "conversationsUnique s"
  shows "conversationsUnique (fst (resolveConversation s a b now))"
proof (cases "findConversation s a b")
  case (Some c)
  with inv show ?thesis by (simp add: resolveConversation_def)
next
  case None
  define c where "c = \<lparr>cId = nextConversationId s, user1Id = a, user2Id = b, updatedAt = now\<rparr>"
  have r: "conversations (fst (resolveConversation s a b now)) = conversations s @ [c]"
    "nextConversationId (fst (resolveConversation s a b now)) = Suc (nextConversationId s)"
    using None by (simp_all add: resolveConversation_def insertConversation_def Let_def c_def)
  have "pairOf x \<noteq> pairOf c" if "x \<in> set (conversations s)" for x
    using None that by (auto simp: findConversation_None pairOf_eq c_def)
  then have p: "pairOf c \<notin> pairOf ` set (conversations s)" by force
  from inv have lt: "list_all (\<lambda>c. cId c < nextConversationId s) (conversations s)"
    by (simp add: conversationsUnique_def)
  have i: "cId c = nextConversationId s" by (simp add: c_def)
  from inv fresh_id [OF lt] p show ?thesis
    by (simp add: conversationsUnique_def r i)
qed

lemma resolveConversation_mem:
  "snd (resolveConversation s a b now) \<in> set (conversations (fst (resolveConversation s a b now)))"
  using findConversation_after_resolve [of s a b now]
  by (auto dest: findConversation_Some)

lemma replace_same_keys:
  assumes d: "distinct (map k xs)" and y: "y \<in> set xs" and ky: "k y' = k y"
    and py: "p y' = p y"
  shows "map k (map (\<lambda>x. if k x = k y' then y' else x) xs) = map k xs"
    and "map p (map (\<lambda>x. if k x = k y' then y' else x) xs) = map p xs"
proof -
  have g: "k (if k x = k y' then y' else x) = k x \<and> p (if k x = k y' then y' else x) = p x"
    if x: "x \<in> set xs" for x
  proof (cases "k x = k y'")
    case True
    with d x y ky have "x = y" by (simp add: distinct_map inj_on_def)
    with True ky py show ?thesis by simp
  next
    case False
    then show ?thesis by simp
  qed
  show "map k (map (\<lambda>x. if k x = k y' then y' else x) xs) = map k xs"
    unfolding map_map by (rule map_cong [OF refl]) (simp add: g)
  show "map p (map (\<lambda>x. if k x = k y' then y' else x) xs) = map p xs"
    unfolding map_map by (rule map_cong [OF refl]) (simp add: g)
qed

lemma conversationsUnique_touch:
  assumes inv: "conversationsUnique s" and mem: "conv \<in> set (conversations s)"
  shows "conversationsUnique (saveConversation s (conv\<lparr>updatedAt := now\<rparr>))"
proof -
  define c' where "c' = conv\<lparr>updatedAt := now\<rparr>"
  have c': "cId c' = cId conv" "pairOf c' = pairOf conv" by (simp_all add: c'_def pairOf_def)
  from inv have d: "distinct (map cId (conversations s))" by (simp add: conversationsUnique_def)
  note r = replace_same_keys [OF d mem c'(1), of pairOf, OF c'(2)]
  have cs: "conversations (saveConversation s c') =
            map (\<lambda>x. if cId x = cId c' then c' else x) (conversations s)"
    and n: "nextConversationId (saveConversation s c') = nextConversationId s"
    by (simp_all add: saveConversation_def)
  have l: "list_all (\<lambda>c. cId c < n) xs \<longleftrightarrow> list_all (\<lambda>k. k < n) (map cId xs)"
    for xs :: "conversation list" and n
    by (simp add: list.pred_map comp_def)
  from inv have "conversationsUnique (saveConversation s c')"
    unfolding conversationsUnique_def l cs n r by simp
  then show ?thesis by (simp only: c'_def)
qed

lemma conversationsUnique_frame:
  assumes "conversationsUnique s" and "conversations s' = conversations s"
    and "nextConversationId s' = nextConversationId s"
  shows "conversationsUnique s'"
  using assms by (simp add: conversationsUnique_def)

lemma insertMessage_conversations [simp]:
  "conversations (fst (insertMessage s c a b k now)) = conversations s"
  "nextConversationId (fst (insertMessage s c a b k now)) = nextConversationId s"
  by (simp_all add: insertMessage_def Let_def)

lemma nextConversationId_saveMessage [simp]:
  "nextConversationId (saveMessage s m) = nextConversationId s"
  by (simp add: saveMessage_def)

lemma conversationsUnique_saveMessage:
  "conversationsUnique s \<Longrightarrow> conversationsUnique (saveMessage s m)"
  by (rule conversationsUnique_frame) simp_all

lemma conversationsUnique_send:
  assumes inv: "conversationsUnique s"
  shows "conversationsUnique (fst (handleSendMessage s a b c now))"
proof (cases "a = b \<or> findUser s b = None")
  case True
  from handleSendMessage_refused [OF True, of c now] inv show ?thesis by auto
next
  case False
  then obtain r where ne: "a \<noteq> b" and r: "findUser s b = Some r" by auto
  define conv where "conv = snd (resolveConversation s a b now)"
  define s1 where "s1 = fst (resolveConversation s a b now)"
  define s2 where "s2 = fst (insertMessage s1 c a b (cId conv) now)"
  define m where "m = snd (insertMessage s1 c a b (cId conv) now)"
  define s3 where "s3 = saveConversation s2 (conv\<lparr>updatedAt := now\<rparr>)"
  have 1: "conversationsUnique s1"
    unfolding s1_def by (rule conversationsUnique_resolve [OF inv])
  have 2: "conversationsUnique s2"
    by (rule conversationsUnique_frame [OF 1]) (simp_all add: s2_def)
  have "conv \<in> set (conversations s2)"
    using resolveConversation_mem [of s a b now] by (simp add: s2_def s1_def conv_def)
  from conversationsUnique_touch [OF 2 this] have 3: "conversationsUnique s3"
    by (simp add: s3_def)
  have "handleSendMessage s a b c now =
     (if userSockets s b = None then (s3, [(Socket a, NewMessage (sanitizeMessage m))])
        else (saveMessage s3 (m\<lparr>isDelivered := True\<rparr>),
              [(Socket a, NewMessage (sanitizeMessage m)),
               (Room b, NewMessage (sanitizeMessage (m\<lparr>isDelivered := True\<rparr>))),
               (Socket a, MessageDelivered (mId m) (cId conv))]))"
    unfolding handleSendMessage_unfold [OF ne r] Let_def
    by (simp only: conv_def s1_def s2_def m_def s3_def)
  with 3 conversationsUnique_saveMessage [OF 3] show ?thesis by simp
qed

lemma markMessagesRead_conversations:
  "conversations (fst (markMessagesRead s cid L)) = conversations s \<and>
   nextConversationId (fst (markMessagesRead s cid L)) = nextConversationId s"
proof (induction L arbitrary: s)
  case Nil
  show ?case by simp
next
  case (Cons m rest)
  show ?case unfolding fst_markMessagesRead_Cons by (simp add: Cons.IH)
qed

lemma markDelivered_conversations:
  "conversations (fst (markDelivered s L)) = conversations s \<and>
   nextConversationId (fst (markDelivered s L)) = nextConversationId s"
proof (induction L arbitrary: s)
  case Nil
  show ?case by simp
next
  case (Cons m rest)
  show ?case unfolding fst_markDelivered_Cons by (simp add: Cons.IH)
qed

lemma updateUserStatus_conversations [simp]:
  "conversations (updateUserStatus s u st seen) = conversations s"
  "nextConversationId (updateUserStatus s u st seen) = nextConversationId s"
  by (cases "findUser s u"; simp add: updateUserStatus_def saveUser_def)+

lemma conversationsUnique_event:
  assumes inv: "conversationsUnique s"
  shows "conversationsUnique (fst (handleEvent s u ev now))"
proof (cases ev)
  case (SendMessage rId c)
  with conversationsUnique_send [OF inv] show ?thesis by simp
next
  case (MarkAsRead k cv)
  have "conversationsUnique (fst (handleMarkAsRead s u k cv))"
    by (rule conversationsUnique_frame [OF inv]; cases "findMessage s k")
       (simp_all add: handleMarkAsRead_def Let_def markMessagesRead_conversations)
  with MarkAsRead show ?thesis by simp
next
  case (TypingIn k)
  with inv show ?thesis
    by (cases "findConversationById s k") (simp_all add: handleTyping_def Let_def)
next
  case (UpdateMessage k c)
  from handleUpdateMessage_cases [of s u k c now] inv show ?thesis
    by (auto simp: UpdateMessage conversationsUnique_saveMessage)
next
  case (DeleteMessage k)
  from handleDeleteMessage_cases [of s u k now] inv show ?thesis
    by (auto simp: DeleteMessage conversationsUnique_saveMessage)
qed

lemma conversationsUnique_other:
  assumes inv: "conversationsUnique s"
  shows "conversationsUnique (fst (handleConnection s u sock now))"
    and "conversationsUnique (fst (handleDisconnect s u now))"
    and "conversationsUnique (fst (markAsRead s u k))"
    and "conversationsUnique (fst (updateMessage s u k c now))"
    and "conversationsUnique (fst (deleteMessage s u k now))"
    and "conversationsUnique (fst (createConversation s u p now))"
proof -
  show "conversationsUnique (fst (handleConnection s u sock now))"
    by (rule conversationsUnique_frame [OF inv])
       (simp_all add: handleConnection_def Let_def split_beta
          markPendingMessagesAsDelivered_def markDelivered_conversations)
  show "conversationsUnique (fst (handleDisconnect s u now))"
    by (rule conversationsUnique_frame [OF inv]) (simp_all add: handleDisconnect_def Let_def)
  show "conversationsUnique (fst (markAsRead s u k))"
    using inv
    by (cases "findMessage s k") (simp_all add: markAsRead_def conversationsUnique_saveMessage)
  show "conversationsUnique (fst (updateMessage s u k c now))"
    using inv
    by (cases "findMessage s k")
       (simp_all add: updateMessage_def Let_def conversationsUnique_saveMessage)
  show "conversationsUnique (fst (deleteMessage s u k now))"
    using inv
    by (cases "findMessage s k") (simp_all add: deleteMessage_def conversationsUnique_saveMessage)
  show "conversationsUnique (fst (createConversation s u p now))"
    using inv conversationsUnique_resolve [OF inv, of u p now]
    by (cases "findUser s p") (simp_all add: createConversation_def split_beta)
qed

text \<open>
  In every reachable store, each unordered pair of users has at most one
  conversation, so the row that the find-or-create query returns is the only one.
\<close>

lemma reachable_conversationsUnique: "reachable s \<Longrightarrow> conversationsUnique s"
proof (induction rule: reachable.induct)
  case (start s)
  then show ?case by (simp add: conversationsUnique_def)
next
  case (accounts s us)
  then show ?case by (simp add: conversationsUnique_def)
qed (simp_all add: conversationsUnique_event conversationsUnique_other)

section \<open>The backup fields are always set\<close>

lemma backupKept_save:
  assumes "backupKept s" and "originalContent m \<noteq> None" and "editHistory m \<noteq> None"
  shows "backupKept (saveMessage s m)"
  using assms by (auto simp add: backupKept_def saveMessage_def list_all_iff)

lemma backupKept_mem:
  assumes "backupKept s" and "m \<in> set (messages s)"
  shows "originalContent m \<noteq> None" and "editHistory m \<noteq> None"
  using assms by (simp_all add: backupKept_def list_all_iff)

lemma backupKept_frame:
  assumes "backupKept s" and "messages s' = messages s"
  shows "backupKept s'"
  using assms by (simp add: backupKept_def)

lemma backupKept_found:
  assumes inv: "backupKept s" and f: "findMessage s k = Some m"
  shows "backupKept (saveMessage s (editMessage m c now))"
    and "backupKept (saveMessage s (softDelete m now))"
    and "backupKept (saveMessage s (m\<lparr>isRead := True\<rparr>))"
    and "backupKept (saveMessage s (m\<lparr>isRead := True, isDelivered := True\<rparr>))"
  using backupKept_mem [OF inv findMessage_mem [OF f]]
  by (auto intro!: backupKept_save [OF inv] simp: editMessage_def softDelete_def)

text \<open>
  The two loops save messages that were loaded before the loop; a later step keeps
  the invariant because every loaded message has its backup fields.
\<close>

lemma backupKept_markMessagesRead:
  assumes "backupKept s"
    and "list_all (\<lambda>m. originalContent m \<noteq> None \<and> editHistory m \<noteq> None) L"
  shows "backupKept (fst (markMessagesRead s cid L))"
  using assms
proof (induction L arbitrary: s)
  case Nil
  then show ?case by simp
next
  case (Cons m rest)
  from Cons.prems(2) have "backupKept (saveMessage s (m\<lparr>isRead := True, isDelivered := True\<rparr>))"
    by (intro backupKept_save [OF Cons.prems(1)]) simp_all
  from Cons.IH [OF this] Cons.prems(2) show ?case by (simp only: fst_markMessagesRead_Cons) simp
qed

lemma backupKept_markDelivered:
  assumes "backupKept s"
    and "list_all (\<lambda>m. originalContent m \<noteq> None \<and> editHistory m \<noteq> None) L"
  shows "backupKept (fst (markDelivered s L))"
  using assms
proof (induction L arbitrary: s)
  case Nil
  then show ?case by simp
next
  case (Cons m rest)
  from Cons.prems(2) have "backupKept (saveMessage s (m\<lparr>isDelivered := True\<rparr>))"
    by (intro backupKept_save [OF Cons.prems(1)]) simp_all
  from Cons.IH [OF this] Cons.prems(2) show ?case by (simp only: fst_markDelivered_Cons) simp
qed

lemma backupKept_filter:
  "backupKept s \<Longrightarrow>
   list_all (\<lambda>m. originalContent m \<noteq> None \<and> editHistory m \<noteq> None) (filter P (messages s))"
  by (simp add: backupKept_def list_all_iff)

lemma backupKept_send:
  assumes inv: "backupKept s"
  shows "backupKept (fst (handleSendMessage s a b c now))"
proof (cases "a = b \<or> findUser s b = None")
  case True
  from handleSendMessage_refused [OF True, of c now] inv show ?thesis by auto
next
  case False
  then obtain r where ne: "a \<noteq> b" and r: "findUser s b = Some r" by auto
  define conv where "conv = snd (resolveConversation s a b now)"
  define s1 where "s1 = fst (resolveConversation s a b now)"
  define m where "m = snd (insertMessage s1 c a b (cId conv) now)"
  define s3 where "s3 = saveConversation (fst (insertMessage s1 c a b (cId conv) now))
    (conv\<lparr>updatedAt := now\<rparr>)"
  have "messages s3 = messages s @ [m]"
    and b: "originalContent m \<noteq> None" "editHistory m \<noteq> None"
    by (simp_all add: s3_def m_def s1_def insertMessage_def Let_def)
  with inv have 3: "backupKept s3" by (simp add: backupKept_def)
  have 4: "backupKept (saveMessage s3 (m\<lparr>isDelivered := True\<rparr>))"
    using b by (intro backupKept_save [OF 3]) simp_all
  have "handleSendMessage s a b c now =
     (if userSockets s b = None then (s3, [(Socket a, NewMessage (sanitizeMessage m))])
        else (saveMessage s3 (m\<lparr>isDelivered := True\<rparr>),
              [(Socket a, NewMessage (sanitizeMessage m)),
               (Room b, NewMessage (sanitizeMessage (m\<lparr>isDelivered := True\<rparr>))),
               (Socket a, MessageDelivered (mId m) (cId conv))]))"
    unfolding handleSendMessage_unfold [OF ne r] Let_def
    by (simp only: conv_def s1_def m_def s3_def)
  with 3 4 show ?thesis by simp
qed

lemma backupKept_markAsRead:
  assumes inv: "backupKept s"
  shows "backupKept (fst (handleMarkAsRead s u k cv))"
proof (cases "cv \<noteq> None \<and> cv \<noteq> Some 0")
  case True
  with backupKept_markMessagesRead [OF inv backupKept_filter [OF inv]] show ?thesis
    by (simp add: handleMarkAsRead_def)
next
  case False
  then have single: "handleMarkAsRead s u k cv = handleMarkAsRead s u k None"
    by (auto simp: handleMarkAsRead_def)
  from inv show ?thesis unfolding single
    by (cases "findMessage s k") (simp_all add: handleMarkAsRead_def Let_def backupKept_found)
qed

lemma backupKept_event:
  assumes inv: "backupKept s"
  shows "backupKept (fst (handleEvent s u ev now))"
proof (cases ev)
  case (SendMessage rId c)
  with backupKept_send [OF inv] show ?thesis by simp
next
  case (MarkAsRead k cv)
  with backupKept_markAsRead [OF inv] show ?thesis by simp
next
  case (TypingIn k)
  with inv show ?thesis
    by (cases "findConversationById s k") (simp_all add: handleTyping_def Let_def)
next
  case (UpdateMessage k c)
  from handleUpdateMessage_cases [of s u k c now] inv show ?thesis
    by (auto simp: UpdateMessage backupKept_found)
next
  case (DeleteMessage k)
  from handleDeleteMessage_cases [of s u k now] inv show ?thesis
    by (auto simp: DeleteMessage backupKept_found)
qed

lemma backupKept_other:
  assumes inv: "backupKept s"
  shows "backupKept (fst (handleConnection s u sock now))"
    and "backupKept (fst (handleDisconnect s u now))"
    and "backupKept (fst (markAsRead s u k))"
    and "backupKept (fst (updateMessage s u k c now))"
    and "backupKept (fst (deleteMessage s u k now))"
    and "backupKept (fst (createConversation s u p now))"
proof -
  define s2 where "s2 = updateUserStatus (s\<lparr>userSockets := (userSockets s)(u \<mapsto> sock)\<rparr>) u ''online'' now"
  from inv have 2: "backupKept s2" by (simp add: backupKept_def s2_def)
  from backupKept_markDelivered [OF 2 backupKept_filter [OF 2]] inv
  show "backupKept (fst (handleConnection s u sock now))"
    by (simp add: handleConnection_def Let_def split_beta markPendingMessagesAsDelivered_def
        s2_def)
  from inv show "backupKept (fst (handleDisconnect s u now))"
    by (simp add: handleDisconnect_def Let_def backupKept_def)
  show "backupKept (fst (markAsRead s u k))"
    using inv by (cases "findMessage s k") (simp_all add: markAsRead_def backupKept_found)
  show "backupKept (fst (updateMessage s u k c now))"
    using inv
    by (cases "findMessage s k") (simp_all add: updateMessage_def Let_def backupKept_found)
  show "backupKept (fst (deleteMessage s u k now))"
    using inv by (cases "findMessage s k") (simp_all add: deleteMessage_def backupKept_found)
  have "backupKept (fst (resolveConversation s u p now))"
    using inv by (simp add: backupKept_def)
  then show "backupKept (fst (createConversation s u p now))"
    using inv by (cases "findUser s p") (simp_all add: createConversation_def split_beta)
qed

text \<open>
  In every reachable store a message has its \<open>originalContent\<close> and its history: what
  \<open>getMessageHistory\<close> returns as original content is never null.
\<close>

lemma reachable_backupKept: "reachable s \<Longrightarrow> backupKept s"
proof (induction rule: reachable.induct)
  case (start s)
  then show ?case by (simp add: backupKept_def)
next
  case (accounts s us)
  then show ?case by (simp add: backupKept_def)
qed (simp_all add: backupKept_event backupKept_other)

end
